theory Spec2Isabelle
  imports Main "HOL-Library.Log_Nat"
begin

section \<open>Strings\<close>

text \<open>
  The text analytics functions of \<^verbatim>\<open>src/script.js\<close> work on JavaScript strings. A string is
  modelled as a list of characters; a \<^typ>\<open>char\<close> is one code unit in the range U+0000 to
  U+00FF (ASCII and Latin-1), so \<open>length\<close> is the \<^verbatim>\<open>.length\<close> of such a string. The character
  classes below are the ECMAScript ones restricted to that range.
\<close>

definition is_space :: "char \<Rightarrow> bool" where
  \<comment> \<open>\<^verbatim>\<open>\s\<close>, and what \<^verbatim>\<open>trim()\<close> strips: TAB, LF, VT, FF, CR, SPACE, NBSP\<close>
  "is_space c = (let n = (of_char c :: nat) in
     n = 9 \<or> n = 10 \<or> n = 11 \<or> n = 12 \<or> n = 13 \<or> n = 32 \<or> n = 160)"

definition is_word_char :: "char \<Rightarrow> bool" where
  \<comment> \<open>\<^verbatim>\<open>\w\<close>: digits, upper-case letters, underscore, lower-case letters\<close>
  "is_word_char c = (let n = (of_char c :: nat) in
     (48 \<le> n \<and> n \<le> 57) \<or> (65 \<le> n \<and> n \<le> 90) \<or> n = 95 \<or> (97 \<le> n \<and> n \<le> 122))"

definition lower_char :: "char \<Rightarrow> char" where
  \<comment> \<open>A to Z, and the Latin-1 capitals U+00C0 to U+00DE without the multiplication sign\<close>
  "lower_char c = (let n = (of_char c :: nat) in
     if (65 \<le> n \<and> n \<le> 90) \<or> (192 \<le> n \<and> n \<le> 222 \<and> n \<noteq> 215) then char_of (n + 32) else c)"

definition toLowerCase :: "string \<Rightarrow> string" where
  "toLowerCase s = map lower_char s"

definition trim :: "string \<Rightarrow> string" where
  "trim s = rev (dropWhile is_space (rev (dropWhile is_space s)))"

definition one_of :: "string \<Rightarrow> char \<Rightarrow> bool" where
  \<comment> \<open>a character class \<^verbatim>\<open>[...]\<close>\<close>
  "one_of cs c = (c \<in> set cs)"

definition none_of :: "string \<Rightarrow> char \<Rightarrow> bool" where
  \<comment> \<open>a negated character class \<^verbatim>\<open>[^...]\<close>\<close>
  "none_of cs c = (c \<notin> set cs)"

section \<open>Regular expressions\<close>

text \<open>
  The regular expressions of the source are kept as syntax trees and run by a backtracking
  matcher. Quantifiers occur in the source on character classes only, and all are greedy:
  \<open>Repeat P lo hi\<close> is \<^verbatim>\<open>P{lo,hi}\<close>, with \<open>None\<close> for no upper bound.
\<close>

datatype regex =
    Class "char \<Rightarrow> bool"
  | Repeat "char \<Rightarrow> bool" nat "nat option"
  | Seq regex regex
  | Alt regex regex
  | WordB
  | Bol
  | Eol

text \<open>
  A matcher state is the input already passed, reversed, and the input still ahead.
  \<open>matches r bef s\<close> lists the states in which a match of \<open>r\<close> started in state
  \<open>(bef, s)\<close> can end, in the order in which a backtracking matcher tries them: the
  head of the list is the match that ECMAScript reports.
\<close>

fun rep_greedy :: "(char \<Rightarrow> bool) \<Rightarrow> nat \<Rightarrow> nat option \<Rightarrow> string \<Rightarrow> string \<Rightarrow> (string \<times> string) list" where
  "rep_greedy P lo hi bef [] = (if lo = 0 then [(bef, [])] else [])"
| "rep_greedy P lo hi bef (c # cs) =
     (if P c \<and> hi \<noteq> Some 0
      then rep_greedy P (lo - 1) (map_option (\<lambda>h. h - 1) hi) (c # bef) cs else [])
     @ (if lo = 0 then [(bef, c # cs)] else [])"

definition at_boundary :: "string \<Rightarrow> string \<Rightarrow> bool" where
  \<comment> \<open>\<^verbatim>\<open>\b\<close>: exactly one of the characters before and after is a word character\<close>
  "at_boundary bef s =
     ((case bef of [] \<Rightarrow> False | b # _ \<Rightarrow> is_word_char b) \<noteq>
      (case s of [] \<Rightarrow> False | c # _ \<Rightarrow> is_word_char c))"

fun matches :: "regex \<Rightarrow> string \<Rightarrow> string \<Rightarrow> (string \<times> string) list" where
  "matches (Class P) bef [] = []"
| "matches (Class P) bef (c # cs) = (if P c then [(c # bef, cs)] else [])"
| "matches (Repeat P lo hi) bef s = rep_greedy P lo hi bef s"
| "matches (Seq r1 r2) bef s = concat (map (\<lambda>(b, t). matches r2 b t) (matches r1 bef s))"
| "matches (Alt r1 r2) bef s = matches r1 bef s @ matches r2 bef s"
| "matches WordB bef s = (if at_boundary bef s then [(bef, s)] else [])"
| "matches Bol bef s = (if bef = [] then [(bef, s)] else [])"
| "matches Eol bef s = (if s = [] then [(bef, s)] else [])"

text \<open>
  \<open>regex_exec\<close> is the search of \<^verbatim>\<open>RegExp.prototype.exec\<close>: the first position, from the
  current one on, at which the expression matches. It returns the state at the start of the
  match, the state passed at its end, and the input after it.
\<close>

fun regex_exec :: "regex \<Rightarrow> string \<Rightarrow> string \<Rightarrow> (string \<times> string \<times> string) option" where
  "regex_exec r bef [] =
     (case matches r bef [] of [] \<Rightarrow> None | (b, t) # _ \<Rightarrow> Some (bef, b, t))"
| "regex_exec r bef (c # cs) =
     (case matches r bef (c # cs) of
        [] \<Rightarrow> regex_exec r (c # bef) cs
      | (b, t) # _ \<Rightarrow> Some (bef, b, t))"

definition matched :: "string \<Rightarrow> string \<Rightarrow> string" where
  \<comment> \<open>the matched substring, from the states at the start and at the end of the match\<close>
  "matched b0 b1 = rev (take (length b1 - length b0) b1)"

lemma rep_greedy_inv:
  "(b, t) \<in> set (rep_greedy P lo hi bef s) \<Longrightarrow>
     \<exists>u. s = u @ t \<and> b = rev u @ bef \<and> (\<forall>c \<in> set u. P c)"
proof (induction s arbitrary: lo hi bef)
  case Nil
  then show ?case by (auto split: if_splits)
next
  case (Cons c cs)
  from Cons.prems consider
    (more) "P c" "(b, t) \<in> set (rep_greedy P (lo - 1) (map_option (\<lambda>h. h - 1) hi) (c # bef) cs)"
    | (stop) "b = bef" "t = c # cs"
    by (auto split: if_splits)
  then show ?case
  proof cases
    case more
    from Cons.IH[OF more(2)] obtain u
      where "cs = u @ t" "b = rev u @ c # bef" "\<forall>x \<in> set u. P x" by blast
    with more(1) have "c # cs = (c # u) @ t \<and> b = rev (c # u) @ bef \<and> (\<forall>x \<in> set (c # u). P x)"
      by simp
    then show ?thesis by blast
  next
    case stop
    then show ?thesis by simp
  qed
qed

lemma matches_inv:
  "(b, t) \<in> set (matches r bef s) \<Longrightarrow> \<exists>u. s = u @ t \<and> b = rev u @ bef"
proof (induction r bef s arbitrary: b t rule: matches.induct)
  case (3 P lo hi bef s)
  then show ?case using rep_greedy_inv[of b t P lo hi bef s] by auto
next
  case (4 r1 r2 bef s)
  from "4.prems" obtain b1 t1 where m1: "(b1, t1) \<in> set (matches r1 bef s)"
    and m2: "(b, t) \<in> set (matches r2 b1 t1)" by auto
  from "4.IH"(1)[OF m1] obtain u where u: "s = u @ t1" "b1 = rev u @ bef" by blast
  from "4.IH"(2)[OF m1 refl m2] obtain v where v: "t1 = v @ t" "b = rev v @ b1" by blast
  from u v have "s = (u @ v) @ t \<and> b = rev (u @ v) @ bef" by simp
  then show ?case by blast
qed (auto split: if_splits)

lemma regex_exec_inv:
  "regex_exec r bef s = Some (b0, b1, t) \<Longrightarrow>
     \<exists>p u. s = p @ u @ t \<and> b0 = rev p @ bef \<and> b1 = rev u @ b0"
proof (induction s arbitrary: bef)
  case Nil
  then have "(b1, t) \<in> set (matches r b0 [])" "b0 = bef"
    by (auto split: list.splits)
  from matches_inv[OF this(1)] this(2) show ?case by auto
next
  case (Cons c cs)
  show ?case
  proof (cases "matches r bef (c # cs)")
    case Nil
    with Cons.prems have "regex_exec r (c # bef) cs = Some (b0, b1, t)" by simp
    from Cons.IH[OF this] obtain p u
      where "cs = p @ u @ t" "b0 = rev p @ c # bef" "b1 = rev u @ b0" by blast
    then have "c # cs = (c # p) @ u @ t \<and> b0 = rev (c # p) @ bef \<and> b1 = rev u @ b0" by simp
    then show ?thesis by blast
  next
    case (Cons m ms)
    with Cons.prems have "(b1, t) \<in> set (matches r b0 (c # cs))" "b0 = bef"
      by (auto split: prod.splits)
    from matches_inv[OF this(1)] this(2) show ?thesis by auto
  qed
qed

section \<open>String methods that take a regular expression\<close>

text \<open>
  \<open>match_all\<close> is the loop of \<^verbatim>\<open>String.prototype.match\<close> for an expression with the
  \<^verbatim>\<open>g\<close> flag: search from the end of the last match, and step one character after an
  empty match. The list of matched substrings is empty where JavaScript returns
  \<^verbatim>\<open>null\<close>.
\<close>

function match_all :: "regex \<Rightarrow> string \<Rightarrow> string \<Rightarrow> string list" where
  "match_all r bef s =
     (case regex_exec r bef s of
        None \<Rightarrow> []
      | Some (b0, b1, t) \<Rightarrow>
          if b1 = b0
          then (case t of [] \<Rightarrow> [[]] | c # cs \<Rightarrow> [] # match_all r (c # b1) cs)
          else matched b0 b1 # match_all r b1 t)"
  by pat_completeness auto
termination
proof (relation "measure (\<lambda>(r, bef, s). length s)")
  show "wf (measure (\<lambda>(r :: regex, bef :: string, s :: string). length s))" by simp
next
  fix r :: regex and bef s b0 b1 t :: string and c cs x2 y
  assume "regex_exec r bef s = Some x2" "(b0, y) = x2" "(b1, t) = y" "b1 = b0" "t = c # cs"
  then have "regex_exec r bef s = Some (b0, b1, c # cs)" by simp
  from regex_exec_inv[OF this]
  show "((r, c # b1, cs), r, bef, s) \<in> measure (\<lambda>(r, bef, s). length s)" by auto
next
  fix r :: regex and bef s b0 b1 t :: string and x2 y
  assume "regex_exec r bef s = Some x2" "(b0, y) = x2" "(b1, t) = y" "b1 \<noteq> b0"
  then have e: "regex_exec r bef s = Some (b0, b1, t)" by simp
  from regex_exec_inv[OF e] obtain p u where "s = p @ u @ t" "b1 = rev u @ b0" by blast
  with \<open>b1 \<noteq> b0\<close> show "((r, b1, t), r, bef, s) \<in> measure (\<lambda>(r, bef, s). length s)" by auto
qed

declare match_all.simps [simp del]

definition str_match_all :: "regex \<Rightarrow> string \<Rightarrow> string list" where
  "str_match_all r s = match_all r [] s"

text \<open>
  \<open>split_loop\<close> is the loop of \<^verbatim>\<open>String.prototype.split\<close> with a regular expression
  separator: \<open>piece\<close> is the text since the end of the last separator, reversed. A match
  that is empty and starts where the last separator ended does not split.
\<close>

function split_loop :: "regex \<Rightarrow> string \<Rightarrow> string \<Rightarrow> string \<Rightarrow> string list" where
  "split_loop r piece bef [] = [rev piece]"
| "split_loop r piece bef (c # cs) =
     (case matches r bef (c # cs) of
        [] \<Rightarrow> split_loop r (c # piece) (c # bef) cs
      | (b1, t) # _ \<Rightarrow>
          if b1 = bef \<and> piece = [] then split_loop r (c # piece) (c # bef) cs
          else rev piece # split_loop r [] b1 t)"
  by pat_completeness auto
termination
proof (relation "measures [\<lambda>(r, piece, bef, s). length s, \<lambda>(r, piece, bef, s). length piece]")
  fix r :: regex and piece bef cs b1 t :: string and c a ms
  assume m: "matches r bef (c # cs) = a # ms" "(b1, t) = a" "\<not> (b1 = bef \<and> piece = [])"
  then have "(b1, t) \<in> set (matches r bef (c # cs))" by simp
  from matches_inv[OF this] obtain u where u: "c # cs = u @ t" "b1 = rev u @ bef" by blast
  from u(1) have len: "length (c # cs) = length u + length t" by (metis length_append)
  show "((r, [], b1, t), r, piece, bef, c # cs)
        \<in> measures [\<lambda>(r, piece, bef, s). length s, \<lambda>(r, piece, bef, s). length piece]"
  proof (cases "u = []")
    case True
    with u m(3) have "t = c # cs" "piece \<noteq> []" by auto
    then show ?thesis by simp
  next
    case False
    with len have "length t < length (c # cs)" by simp
    then show ?thesis by simp
  qed
qed simp_all

definition str_split :: "regex \<Rightarrow> string \<Rightarrow> string list" where
  \<comment> \<open>on the empty string the result is \<^verbatim>\<open>[""]\<close>, or \<^verbatim>\<open>[]\<close> when the separator matches it\<close>
  "str_split r s =
     (if s = [] then (if matches r [] [] = [] then [[]] else []) else split_loop r [] [] s)"

definition str_replace :: "regex \<Rightarrow> string \<Rightarrow> string \<Rightarrow> string" where
  \<comment> \<open>\<^verbatim>\<open>s.replace(r, repl)\<close> without the \<^verbatim>\<open>g\<close> flag: the first match only\<close>
  "str_replace r repl s =
     (case regex_exec r [] s of None \<Rightarrow> s | Some (b0, b1, t) \<Rightarrow> rev b0 @ repl @ t)"

section \<open>Numbers\<close>

text \<open>
  A JavaScript Number is an IEEE 754 double. A finite double is modelled by the rational it
  denotes, and an arithmetic operation rounds its exact result to the nearest double:
  \<open>fl\<close> rounds the magnitude to 53 significant bits, ties to even, and keeps the sign. The exponent range is not
  bounded; the operations below are applied to counts (Array lengths, below \<open>2 ^ 32\<close>),
  their quotients and the constants of the source, which stay far inside the range of a
  double. Zero has no sign in the model: the source never divides by a zero that was computed
  with a negative sign.
\<close>

datatype number = Num rat | PosInf | NegInf | NaN

definition expo :: "rat \<Rightarrow> int" where
  \<comment> \<open>the binary exponent of a rational other than 0: \<open>2 powi expo x \<le> \<bar>x\<bar> < 2 powi (expo x + 1)\<close>\<close>
  "expo x = (if 1 \<le> \<bar>x\<bar> then bitlen \<lfloor>\<bar>x\<bar>\<rfloor> - 1 else - bitlen (\<lceil>1 / \<bar>x\<bar>\<rceil> - 1))"

definition round_half_even :: "rat \<Rightarrow> int" where
  "round_half_even q = (let f = \<lfloor>q\<rfloor>; r = q - of_int f in
     if r < 1 / 2 then f else if 1 / 2 < r then f + 1 else if even f then f else f + 1)"

definition fl :: "rat \<Rightarrow> rat" where
  "fl x = (if x = 0 then 0 else
     let u = 2 powi (expo x - 52) in sgn x * of_int (round_half_even (\<bar>x\<bar> / u)) * u)"

definition number_of_nat :: "nat \<Rightarrow> number" where
  \<comment> \<open>a count, held exactly\<close>
  "number_of_nat n = Num (of_nat n)"

definition literal :: "rat \<Rightarrow> number" where
  \<comment> \<open>a decimal literal of the source denotes the double nearest to it\<close>
  "literal q = Num (fl q)"

fun js_div :: "number \<Rightarrow> number \<Rightarrow> number" where
  "js_div (Num a) (Num b) =
     (if b = 0 then (if a = 0 then NaN else if 0 < a then PosInf else NegInf)
      else Num (fl (a / b)))"
| "js_div NaN _ = NaN"
| "js_div _ NaN = NaN"
| "js_div (Num a) _ = Num 0"
| "js_div PosInf (Num b) = (if 0 \<le> b then PosInf else NegInf)"
| "js_div NegInf (Num b) = (if 0 \<le> b then NegInf else PosInf)"
| "js_div _ _ = NaN"

fun js_mul :: "number \<Rightarrow> number \<Rightarrow> number" where
  "js_mul (Num a) (Num b) = Num (fl (a * b))"
| "js_mul NaN _ = NaN"
| "js_mul _ NaN = NaN"
| "js_mul (Num a) PosInf = (if a = 0 then NaN else if 0 < a then PosInf else NegInf)"
| "js_mul (Num a) NegInf = (if a = 0 then NaN else if 0 < a then NegInf else PosInf)"
| "js_mul PosInf (Num b) = (if b = 0 then NaN else if 0 < b then PosInf else NegInf)"
| "js_mul NegInf (Num b) = (if b = 0 then NaN else if 0 < b then NegInf else PosInf)"
| "js_mul PosInf PosInf = PosInf"
| "js_mul NegInf NegInf = PosInf"
| "js_mul PosInf NegInf = NegInf"
| "js_mul NegInf PosInf = NegInf"

fun js_sub :: "number \<Rightarrow> number \<Rightarrow> number" where
  "js_sub (Num a) (Num b) = Num (fl (a - b))"
| "js_sub NaN _ = NaN"
| "js_sub _ NaN = NaN"
| "js_sub (Num a) PosInf = NegInf"
| "js_sub (Num a) NegInf = PosInf"
| "js_sub PosInf PosInf = NaN"
| "js_sub NegInf NegInf = NaN"
| "js_sub PosInf _ = PosInf"
| "js_sub NegInf _ = NegInf"

fun js_lt :: "number \<Rightarrow> number \<Rightarrow> bool" where
  "js_lt (Num a) (Num b) = (a < b)"
| "js_lt NaN _ = False"
| "js_lt _ NaN = False"
| "js_lt _ NegInf = False"
| "js_lt PosInf _ = False"
| "js_lt _ _ = True"

definition js_gt :: "number \<Rightarrow> number \<Rightarrow> bool" where
  "js_gt a b = js_lt b a"

fun math_ceil :: "number \<Rightarrow> number" where
  "math_ceil (Num a) = Num (of_int \<lceil>a\<rceil>)"
| "math_ceil x = x"

fun math_round :: "number \<Rightarrow> number" where
  \<comment> \<open>the nearest integer, a tie towards \<open>+\<infinity>\<close>\<close>
  "math_round (Num a) = Num (of_int \<lfloor>a + 1 / 2\<rfloor>)"
| "math_round x = x"

fun math_min :: "number \<Rightarrow> number \<Rightarrow> number" where
  "math_min NaN _ = NaN"
| "math_min _ NaN = NaN"
| "math_min a b = (if js_lt b a then b else a)"

fun math_max :: "number \<Rightarrow> number \<Rightarrow> number" where
  "math_max NaN _ = NaN"
| "math_max _ NaN = NaN"
| "math_max a b = (if js_lt a b then b else a)"

text \<open>
  The decimal digits of a natural number, and the string of a Number as a template literal
  renders it. For an integer below \<open>2 ^ 53\<close> in magnitude that string is the decimal
  numeral; the model gives the numeral of the integer part for every finite value, which is
  the rendering of JavaScript on that range only.
\<close>

fun digits_acc :: "nat \<Rightarrow> nat \<Rightarrow> string \<Rightarrow> string" where
  "digits_acc 0 n acc = acc"
| "digits_acc (Suc fuel) n acc =
     (if n < 10 then char_of (48 + n) # acc
      else digits_acc fuel (n div 10) (char_of (48 + n mod 10) # acc))"

definition nat_to_string :: "nat \<Rightarrow> string" where
  "nat_to_string n = digits_acc (Suc n) n []"

fun number_to_string :: "number \<Rightarrow> string" where
  "number_to_string (Num a) =
     (if a < 0 then CHR ''-'' # nat_to_string (nat \<lfloor>- a\<rfloor>) else nat_to_string (nat \<lfloor>a\<rfloor>))"
| "number_to_string PosInf = ''Infinity''"
| "number_to_string NegInf = ''-Infinity''"
| "number_to_string NaN = ''NaN''"

section \<open>The text analytics functions\<close>

subsection \<open>Counting\<close>

definition re_spaces :: regex where
  \<comment> \<open>\<^verbatim>\<open>/\s+/\<close>\<close>
  "re_spaces = Repeat is_space 1 None"

definition re_enders :: regex where
  \<comment> \<open>\<^verbatim>\<open>/[.!?]+/\<close>\<close>
  "re_enders = Repeat (one_of ''.!?'') 1 None"

definition re_blank_line :: regex where
  \<comment> \<open>\<^verbatim>\<open>/\n\s*\n/\<close>\<close>
  "re_blank_line =
     Seq (Class (one_of [CHR 0x0A])) (Seq (Repeat is_space 0 None) (Class (one_of [CHR 0x0A])))"

definition re_word :: regex where
  \<comment> \<open>\<^verbatim>\<open>/\b\w+\b/g\<close>\<close>
  "re_word = Seq WordB (Seq (Repeat is_word_char 1 None) WordB)"

definition countWords :: "string \<Rightarrow> nat" where
  "countWords text =
     (if text = [] \<or> length (trim text) = 0 then 0
      else length (filter (\<lambda>word. 0 < length word) (str_split re_spaces (trim text))))"

definition countSentences :: "string \<Rightarrow> nat" where
  "countSentences text =
     (if text = [] \<or> length (trim text) = 0 then 0
      else length (filter (\<lambda>s. 0 < length (trim s)) (str_split re_enders (trim text))))"

definition countParagraphs :: "string \<Rightarrow> nat" where
  "countParagraphs text =
     (if text = [] \<or> length (trim text) = 0 then 0
      else let paragraphs = filter (\<lambda>p. 0 < length (trim p)) (str_split re_blank_line (trim text))
           in if 0 < length paragraphs then length paragraphs else 1)"


definition getWords :: "string \<Rightarrow> string list" where
  "getWords text =
     (if text = [] \<or> length (trim text) = 0 then []
      else str_match_all re_word (toLowerCase text))"

subsection \<open>Time estimates\<close>

definition calculateReadingTime :: "nat \<Rightarrow> string" where
  "calculateReadingTime wordCount =
     (let wordsPerMinute = number_of_nat 200;
          minutes = js_div (number_of_nat wordCount) wordsPerMinute
      in if js_lt minutes (number_of_nat 1) then ''< 1 min''
         else if js_lt minutes (number_of_nat 2) then ''1 min''
         else number_to_string (math_ceil minutes) @ '' min'')"

definition calculateSpeakingTime :: "nat \<Rightarrow> string" where
  "calculateSpeakingTime wordCount =
     (let wordsPerMinute = number_of_nat 150;
          minutes = js_div (number_of_nat wordCount) wordsPerMinute
      in if js_lt minutes (number_of_nat 1) then ''< 1 min''
         else if js_lt minutes (number_of_nat 2) then ''1 min''
         else number_to_string (math_ceil minutes) @ '' min'')"

definition calculateSkimmingTime :: "nat \<Rightarrow> string" where
  "calculateSkimmingTime wordCount =
     (let wordsPerMinute = number_of_nat 400;
          minutes = js_div (number_of_nat wordCount) wordsPerMinute
      in if js_lt minutes (number_of_nat 1) then ''< 1 min''
         else if js_lt minutes (number_of_nat 2) then ''1 min''
         else number_to_string (math_ceil minutes) @ '' min'')"

subsection \<open>Syllables and readability\<close>

definition re_silent_suffix :: regex where
  \<comment> \<open>\<^verbatim>\<open>/(?:[^laeiouy]es|ed|[^laeiouy]e)$/\<close>\<close>
  "re_silent_suffix =
     Seq (Alt (Seq (Class (none_of ''laeiouy'')) (Seq (Class (one_of ''e'')) (Class (one_of ''s''))))
          (Alt (Seq (Class (one_of ''e'')) (Class (one_of ''d'')))
               (Seq (Class (none_of ''laeiouy'')) (Class (one_of ''e'')))))
         Eol"

definition re_leading_y :: regex where
  \<comment> \<open>\<^verbatim>\<open>/^y/\<close>\<close>
  "re_leading_y = Seq Bol (Class (one_of ''y''))"

definition re_vowels :: regex where
  \<comment> \<open>\<^verbatim>\<open>/[aeiouy]{1,2}/g\<close>\<close>
  "re_vowels = Repeat (one_of ''aeiouy'') 1 (Some 2)"

definition countSyllablesInWord :: "string \<Rightarrow> nat" where
  "countSyllablesInWord word =
     (let w0 = toLowerCase word in
      if length w0 \<le> 3 then 1
      else let w1 = str_replace re_silent_suffix [] w0;
               w2 = str_replace re_leading_y [] w1;
               ms = str_match_all re_vowels w2
           in if ms \<noteq> [] then length ms else 1)"

definition countSyllables :: "string \<Rightarrow> nat" where
  \<comment> \<open>\<^verbatim>\<open>words.reduce((sum, word) => sum + countSyllablesInWord(word), 0)\<close>\<close>
  "countSyllables text = foldl (\<lambda>sum word. sum + countSyllablesInWord word) 0 (getWords text)"

definition calculateFleschReadingEase :: "string \<Rightarrow> number option" where
  \<comment> \<open>\<open>None\<close> is \<^verbatim>\<open>null\<close>\<close>
  "calculateFleschReadingEase text =
     (let sentences = countSentences text;
          words = countWords text;
          syllables = countSyllables text
      in if sentences = 0 \<or> words = 0 then None
         else let avgSentenceLength = js_div (number_of_nat words) (number_of_nat sentences);
                  avgSyllablesPerWord = js_div (number_of_nat syllables) (number_of_nat words);
                  score = js_sub (js_sub (literal (206835 / 1000))
                                         (js_mul (literal (1015 / 1000)) avgSentenceLength))
                                 (js_mul (literal (846 / 10)) avgSyllablesPerWord)
              in Some (math_max (number_of_nat 0) (math_min (number_of_nat 100) (math_round score))))"

subsection \<open>Language and sentiment\<close>

definition commonEnglishWords :: "string list" where
  "commonEnglishWords = [''the'', ''be'', ''to'', ''of'', ''and'', ''a'', ''in'', ''that'', ''have'',
     ''i'', ''it'', ''for'', ''not'', ''on'', ''with'', ''he'', ''as'', ''you'', ''do'', ''at'']"

definition detectLanguage :: "string \<Rightarrow> string" where
  "detectLanguage text =
     (if text = [] \<or> length (trim text) = 0 then ''-''
      else let words = take 50 (getWords text);
               englishMatches = length (filter (\<lambda>word. word \<in> set commonEnglishWords) words);
               englishRatio = js_div (number_of_nat englishMatches)
                                     (number_of_nat (min (length words) 50))
           in if js_gt englishRatio (literal (2 / 10)) then ''English'' else ''English (likely)'')"

record sentiment =
  score :: number
  label :: string

definition positiveWords :: "string list" where
  "positiveWords = [''good'', ''great'', ''excellent'', ''amazing'', ''wonderful'', ''fantastic'',
     ''love'', ''happy'', ''joy'', ''pleased'', ''delighted'', ''perfect'', ''best'', ''awesome'',
     ''brilliant'', ''outstanding'', ''superb'', ''marvelous'', ''terrific'', ''fabulous'']"

definition negativeWords :: "string list" where
  "negativeWords = [''bad'', ''terrible'', ''awful'', ''horrible'', ''hate'', ''sad'', ''angry'',
     ''disappointed'', ''worst'', ''poor'', ''fail'', ''failure'', ''wrong'', ''error'', ''problem'',
     ''issue'', ''difficult'', ''hard'', ''tough'', ''struggle'']"

definition count_step :: "string \<Rightarrow> nat \<times> nat \<Rightarrow> nat \<times> nat" where
  \<comment> \<open>the body of the \<^verbatim>\<open>forEach\<close>, on the pair of counters\<close>
  "count_step word = (\<lambda>(positiveCount, negativeCount).
     (if word \<in> set positiveWords then positiveCount + 1 else positiveCount,
      if word \<in> set negativeWords then negativeCount + 1 else negativeCount))"

definition analyzeSentiment :: "string \<Rightarrow> sentiment" where
  "analyzeSentiment text =
     (if text = [] \<or> length (trim text) = 0 then \<lparr>score = number_of_nat 0, label = ''-''\<rparr>
      else let (positiveCount, negativeCount) = fold count_step (getWords text) (0, 0);
               total = positiveCount + negativeCount
           in if total = 0 then \<lparr>score = number_of_nat 0, label = ''Neutral''\<rparr>
              else let sc = js_mul (js_div (Num (of_int (int positiveCount - int negativeCount)))
                                           (number_of_nat total))
                                   (number_of_nat 100)
                   in if js_gt sc (number_of_nat 20) then \<lparr>score = sc, label = ''Positive''\<rparr>
                      else if js_lt sc (Num (- 20)) then \<lparr>score = sc, label = ''Negative''\<rparr>
                      else \<lparr>score = sc, label = ''Neutral''\<rparr>)"

subsection \<open>Sorting, longest and shortest word, word frequencies\<close>

text \<open>
  \<^verbatim>\<open>Array.prototype.sort\<close> is stable, and for a comparator that is consistent its result
  is the stable sorted order whatever algorithm the engine runs; the model sorts by
  insertion. The comparator returns a number, of which only the sign is used.
\<close>

fun insert_sorted :: "('a \<Rightarrow> 'a \<Rightarrow> int) \<Rightarrow> 'a \<Rightarrow> 'a list \<Rightarrow> 'a list" where
  "insert_sorted cmp x [] = [x]"
| "insert_sorted cmp x (y # ys) =
     (if cmp x y \<le> 0 then x # y # ys else y # insert_sorted cmp x ys)"

definition array_sort :: "('a \<Rightarrow> 'a \<Rightarrow> int) \<Rightarrow> 'a list \<Rightarrow> 'a list" where
  "array_sort cmp xs = foldr (insert_sorted cmp) xs []"

record word_extremes =
  longest :: string
  shortest :: string

definition findLongestAndShortestWords :: "string \<Rightarrow> word_extremes" where
  "findLongestAndShortestWords text =
     (let words = getWords text in
      if length words = 0 then \<lparr>longest = ''-'', shortest = ''-''\<rparr>
      else let sortedByLength = array_sort (\<lambda>a b. int (length b) - int (length a)) words
           in \<lparr>longest = hd sortedByLength,
               shortest = hd (array_sort (\<lambda>a b. int (length a) - int (length b)) words)\<rparr>)"

text \<open>
  The frequency table is a plain object. Its own properties are kept as the list of entries
  in the order in which \<^verbatim>\<open>Object.entries\<close> lists them: the keys that are array indices
  (canonical numerals up to \<open>2 ^ 32 - 2\<close>) in ascending numeric order, then the other keys
  in the order of their creation.
\<close>

definition is_digit :: "char \<Rightarrow> bool" where
  "is_digit c = (let n = (of_char c :: nat) in 48 \<le> n \<and> n \<le> 57)"

definition index_value :: "string \<Rightarrow> nat" where
  "index_value k = foldl (\<lambda>v c. 10 * v + (of_char c - 48)) 0 k"

definition is_array_index :: "string \<Rightarrow> bool" where
  "is_array_index k =
     (k \<noteq> [] \<and> list_all is_digit k \<and> (k = ''0'' \<or> hd k \<noteq> CHR ''0'') \<and> index_value k < 2 ^ 32 - 1)"

fun create_property :: "string \<Rightarrow> (string \<times> nat) list \<Rightarrow> (string \<times> nat) list" where
  "create_property k [] = [(k, 1)]"
| "create_property k ((k', v) # ps) =
     (if is_array_index k \<and> (\<not> is_array_index k' \<or> index_value k < index_value k')
      then (k, 1) # (k', v) # ps
      else (k', v) # create_property k ps)"

definition increment :: "string \<Rightarrow> (string \<times> nat) list \<Rightarrow> (string \<times> nat) list" where
  \<comment> \<open>\<^verbatim>\<open>frequency[word] = (frequency[word] || 0) + 1\<close> for a word that names no inherited member\<close>
  "increment w obj =
     (case map_of obj w of
        None \<Rightarrow> create_property w obj
      | Some c \<Rightarrow> map (\<lambda>(k, v). if k = w then (k, v + 1) else (k, v)) obj)"

text \<open>
  The object inherits from \<^verbatim>\<open>Object.prototype\<close>, and two of the inherited members have
  names that a lower-cased token can be. For \<^verbatim>\<open>__proto__\<close> the assignment calls the inherited
  setter with a string, which does nothing: the token is never counted. For
  \<^verbatim>\<open>constructor\<close> the value read is a function, so that the sum is a string and the
  comparator of the sort returns \<^verbatim>\<open>NaN\<close>; ECMAScript leaves the order of such a sort to the
  implementation, and the model returns \<open>Inl InheritedMember\<close> for it.
\<close>

datatype table_error = InheritedMember

fun count_words :: "string list \<Rightarrow> (string \<times> nat) list \<Rightarrow> table_error + (string \<times> nat) list" where
  "count_words [] obj = Inr obj"
| "count_words (w # ws) obj =
     (if w = ''constructor'' then Inl InheritedMember
      else if w = ''__proto__'' then count_words ws obj
      else count_words ws (increment w obj))"

record word_count =
  word :: string
  count :: nat

definition getMostFrequentWords :: "string \<Rightarrow> nat option \<Rightarrow> table_error + word_count list" where
  \<comment> \<open>the second argument is \<open>None\<close> where the call leaves \<^verbatim>\<open>topN\<close> out\<close>
  "getMostFrequentWords text topN_arg =
     (let topN = (case topN_arg of None \<Rightarrow> 10 | Some n \<Rightarrow> n);
          words = getWords text
      in if length words = 0 then Inr []
         else case count_words words [] of
                Inl e \<Rightarrow> Inl e
              | Inr frequency \<Rightarrow>
                  Inr (map (\<lambda>(w, c). \<lparr>word = w, count = c\<rparr>)
                        (take topN (array_sort (\<lambda>a b. int (snd b) - int (snd a)) frequency))))"

section \<open>Notions used in the statements\<close>

text \<open>
  A blank-line separator is a line feed, any white space, and a line feed:
  \<open>has_blank_line s\<close> tells whether \<open>s\<close> contains one, and \<open>blank_rest s\<close> whether
  \<open>s\<close> starts with white space up to a line feed.
\<close>

fun blank_rest :: "string \<Rightarrow> bool" where
  "blank_rest [] = False"
| "blank_rest (c # cs) = (c = CHR 0x0A \<or> (is_space c \<and> blank_rest cs))"

fun has_blank_line :: "string \<Rightarrow> bool" where
  "has_blank_line [] = False"
| "has_blank_line (c # cs) = ((c = CHR 0x0A \<and> blank_rest cs) \<or> has_blank_line cs)"

text \<open>
  \<open>word_starts Q inw s\<close> counts the positions of \<open>s\<close> at which a maximal run of
  characters satisfying \<open>Q\<close> starts; \<open>inw\<close> tells whether the character before
  \<open>s\<close> satisfies \<open>Q\<close>. Both the number of matches of \<^verbatim>\<open>/\b\w+\b/g\<close> and the number of
  non-empty pieces of a split on \<^verbatim>\<open>/\s+/\<close> are such counts.
\<close>

fun word_starts :: "(char \<Rightarrow> bool) \<Rightarrow> bool \<Rightarrow> string \<Rightarrow> nat" where
  "word_starts Q inw [] = 0"
| "word_starts Q inw (c # cs) =
     (if Q c then (if inw then 0 else 1) + word_starts Q True cs else word_starts Q False cs)"


text \<open>
  The steps of \<open>countSyllablesInWord\<close> without regular expressions. The suffix that is
  removed is \<^verbatim>\<open>es\<close> with the character before it, where that character is none of
  \<^verbatim>\<open>laeiouy\<close>; or else \<^verbatim>\<open>ed\<close> alone, whatever stands before it; or else \<^verbatim>\<open>e\<close> with the
  character before it, where that character is none of \<^verbatim>\<open>laeiouy\<close>. \<open>vowel_groups\<close> counts
  the groups of one or two consecutive vowels, taken greedily from the left.
\<close>

definition remove_silent_suffix :: "string \<Rightarrow> string" where
  "remove_silent_suffix w = (let n = length w in
     if 3 \<le> n \<and> drop (n - 2) w = ''es'' \<and> none_of ''laeiouy'' (w ! (n - 3)) then take (n - 3) w
     else if 2 \<le> n \<and> drop (n - 2) w = ''ed'' then take (n - 2) w
     else if 2 \<le> n \<and> drop (n - 1) w = ''e'' \<and> none_of ''laeiouy'' (w ! (n - 2)) then take (n - 2) w
     else w)"

definition remove_leading_y :: "string \<Rightarrow> string" where
  "remove_leading_y w = (case w of [] \<Rightarrow> [] | c # cs \<Rightarrow> if c = CHR ''y'' then cs else w)"

fun vowel_groups :: "string \<Rightarrow> nat" where
  "vowel_groups [] = 0"
| "vowel_groups [a] = (if one_of ''aeiouy'' a then 1 else 0)"
| "vowel_groups (a # b # cs) =
     (if one_of ''aeiouy'' a
      then (if one_of ''aeiouy'' b then 1 + vowel_groups cs else 1 + vowel_groups (b # cs))
      else vowel_groups (b # cs))"

definition syllable_steps :: "string \<Rightarrow> nat" where
  "syllable_steps wd =
     (let w = toLowerCase wd in
      if length w \<le> 3 then 1
      else let n = vowel_groups (remove_leading_y (remove_silent_suffix w))
           in if n = 0 then 1 else n)"

text \<open>
  The same steps in the words of the specification, which has the suffix be a consonant
  followed by \<^verbatim>\<open>es\<close> or \<^verbatim>\<open>ed\<close>, or a consonant followed by a silent \<^verbatim>\<open>e\<close>; a consonant is a
  letter other than \<^verbatim>\<open>a e i o u y\<close>.
\<close>

definition is_consonant :: "char \<Rightarrow> bool" where
  "is_consonant c = (let n = (of_char c :: nat) in 97 \<le> n \<and> n \<le> 122 \<and> c \<notin> set ''aeiouy'')"

definition remove_suffix_as_claimed :: "string \<Rightarrow> string" where
  "remove_suffix_as_claimed w = (let n = length w in
     if 3 \<le> n \<and> drop (n - 2) w = ''es'' \<and> is_consonant (w ! (n - 3)) then take (n - 3) w
     else if 3 \<le> n \<and> drop (n - 2) w = ''ed'' \<and> is_consonant (w ! (n - 3)) then take (n - 3) w
     else if 2 \<le> n \<and> drop (n - 1) w = ''e'' \<and> is_consonant (w ! (n - 2)) then take (n - 2) w
     else w)"

definition syllables_as_claimed :: "string \<Rightarrow> nat" where
  "syllables_as_claimed wd =
     (let w = toLowerCase wd in
      if length w \<le> 3 then 1
      else let n = vowel_groups (remove_leading_y (remove_suffix_as_claimed w))
           in if n = 0 then 1 else n)"

text \<open>
  The time estimate of the specification, with the words per minute as a parameter:
  \<open>estimateTime\<close> follows the three branches on the Number
  \<open>minutes = wordCount / wordsPerMinute\<close>, and \<open>estimateTime_exact\<close> follows them on the
  exact quotient.
\<close>

definition estimateTime :: "nat \<Rightarrow> nat \<Rightarrow> string" where
  "estimateTime wordCount wordsPerMinute =
     (let minutes = js_div (number_of_nat wordCount) (number_of_nat wordsPerMinute)
      in if js_lt minutes (Num 1) then ''< 1 min''
         else if js_lt minutes (Num 2) then ''1 min''
         else number_to_string (math_ceil minutes) @ '' min'')"

definition estimateTime_exact :: "nat \<Rightarrow> nat \<Rightarrow> string" where
  "estimateTime_exact wordCount wordsPerMinute =
     (let minutes = (of_nat wordCount :: rat) / of_nat wordsPerMinute
      in if minutes < 1 then ''< 1 min''
         else if minutes < 2 then ''1 min''
         else nat_to_string (nat \<lceil>minutes\<rceil>) @ '' min'')"


text \<open>
  The Flesch score of the specification,
  \<open>206.835 - 1.015 * (words / sentences) - 84.6 * (syllables / words)\<close>, as a Number, and
  the clamp of a Number to the interval from 0 to 100.
\<close>

definition flesch_score :: "string \<Rightarrow> number" where
  "flesch_score text =
     js_sub (js_sub (literal (206835 / 1000))
                    (js_mul (literal (1015 / 1000))
                            (js_div (number_of_nat (countWords text)) (number_of_nat (countSentences text)))))
            (js_mul (literal (846 / 10))
                    (js_div (number_of_nat (countSyllables text)) (number_of_nat (countWords text))))"

definition clamp_0_100 :: "number \<Rightarrow> number" where
  "clamp_0_100 x = math_max (Num 0) (math_min (Num 100) x)"

section \<open>Properties\<close>

subsection \<open>Characters, trimming and word starts\<close>



lemma lower_char_idem: "lower_char (lower_char c) = lower_char c"
  by (auto simp: lower_char_def Let_def)

lemma is_space_lower: "is_space (lower_char c) = is_space c"
  by (auto simp: is_space_def lower_char_def Let_def)

lemma newline_is_space: "is_space (CHR 0x0A)"
  by (simp add: is_space_def)



lemma rep_greedy_one_none:
  "s = [] \<or> \<not> P (hd s) \<Longrightarrow> rep_greedy P (Suc 0) hi bef s = []"
  by (cases s) auto

lemma match_all_skip:
  "matches r bef (c # cs) = [] \<Longrightarrow> match_all r bef (c # cs) = match_all r (c # bef) cs"
  by (subst match_all.simps, subst (2) match_all.simps) simp




lemma word_starts_cong:
  "\<forall>c \<in> set s. Q c = Q' c \<Longrightarrow> word_starts Q b s = word_starts Q' b s"
  by (induction s arbitrary: b) auto










lemma dropWhile_hd: "xs \<noteq> [] \<Longrightarrow> \<not> P (hd xs) \<Longrightarrow> dropWhile P xs = xs"
  by (cases xs) auto

lemma dropWhile_all: "\<forall>x \<in> set xs. P x \<Longrightarrow> dropWhile P xs = []"
  by (induction xs) auto

lemma trim_Nil: "trim [] = []"
  by (simp add: trim_def)

lemma trim_decomp:
  "\<exists>lead trail. s = lead @ trim s @ trail \<and> (\<forall>c \<in> set lead. is_space c) \<and> (\<forall>c \<in> set trail. is_space c)"
proof -
  let ?a = "dropWhile is_space s"
  have "rev (takeWhile is_space (rev ?a) @ dropWhile is_space (rev ?a)) = rev (rev ?a)"
    by (simp only: takeWhile_dropWhile_id)
  then have "rev (dropWhile is_space (rev ?a)) @ rev (takeWhile is_space (rev ?a)) = ?a"
    by (simp only: rev_append rev_rev_ident)
  then have a: "?a = trim s @ rev (takeWhile is_space (rev ?a))"
    by (simp only: trim_def)
  have "s = takeWhile is_space s @ ?a" by simp
  with a have "s = takeWhile is_space s @ trim s @ rev (takeWhile is_space (rev ?a))" by simp
  moreover have "\<forall>c \<in> set (takeWhile is_space s). is_space c"
    using set_takeWhileD by metis
  moreover have "\<forall>c \<in> set (rev (takeWhile is_space (rev ?a))). is_space c"
    using set_takeWhileD[of _ is_space "rev ?a"] by auto
  ultimately show ?thesis by blast
qed

lemma trim_eq_Nil: "trim s = [] \<longleftrightarrow> (\<forall>c \<in> set s. is_space c)"
proof
  assume "trim s = []"
  with trim_decomp[of s] show "\<forall>c \<in> set s. is_space c" by (metis append_Nil set_append UnE)
next
  assume "\<forall>c \<in> set s. is_space c"
  then have d: "dropWhile is_space s = []" by (rule dropWhile_all)
  show "trim s = []" unfolding trim_def d by simp
qed

lemma trim_ends:
  assumes "trim s \<noteq> []"
  shows "\<not> is_space (hd (trim s))" "\<not> is_space (last (trim s))"
proof -
  let ?a = "dropWhile is_space s"
  let ?b = "dropWhile is_space (rev ?a)"
  from assms have b: "?b \<noteq> []" by (simp only: trim_def rev_is_Nil_conv not_False_eq_True)
  then have hb: "\<not> is_space (hd ?b)" by (rule hd_dropWhile)
  have t: "trim s = rev ?b" by (simp only: trim_def)
  show "\<not> is_space (last (trim s))" by (metis t last_rev hb)
  have a: "?a \<noteq> []"
  proof
    assume "?a = []"
    then have "?b = []" by (simp only: rev.simps dropWhile.simps)
    with b show False by contradiction
  qed
  then have ha: "\<not> is_space (hd ?a)" by (rule hd_dropWhile)
  from a have ra: "rev ?a \<noteq> []" by (simp only: rev_is_Nil_conv not_False_eq_True)
  have "rev ?a = takeWhile is_space (rev ?a) @ ?b" by (simp only: takeWhile_dropWhile_id)
  then have "last (rev ?a) = last ?b" using b by (metis last_appendR)
  moreover have "last (rev ?a) = hd ?a" using a by (simp only: last_rev)
  moreover have "hd (rev ?b) = last ?b" using b by (simp only: hd_rev)
  ultimately show "\<not> is_space (hd (trim s))" using ha by (metis t)
qed

lemma trim_id:
  assumes "s \<noteq> []" "\<not> is_space (hd s)" "\<not> is_space (last s)"
  shows "trim s = s"
proof -
  from assms(1,2) have "dropWhile is_space s = s" by (rule dropWhile_hd)
  moreover have "dropWhile is_space (rev s) = rev s"
  proof (rule dropWhile_hd)
    show "rev s \<noteq> []" using assms(1) by simp
    show "\<not> is_space (hd (rev s))" using assms(1,3) by (simp add: hd_rev)
  qed
  ultimately show ?thesis by (simp add: trim_def)
qed

lemma trim_trim: "trim (trim s) = trim s"
proof (cases "trim s = []")
  case True
  then show ?thesis by (simp add: trim_Nil)
next
  case False
  with trim_ends[of s] show ?thesis by (intro trim_id) auto
qed









subsection \<open>Unique words and word count\<close>





subsection \<open>Longest and shortest word\<close>

lemma matched_append: "matched b0 (rev u @ b0) = u"
  by (simp add: matched_def)

lemma match_all_chars: "w \<in> set (match_all r bef s) \<Longrightarrow> set w \<subseteq> set s"
proof (induction r bef s rule: match_all.induct)
  case (1 r bef s)
  show ?case
  proof (cases "regex_exec r bef s")
    case None
    with "1.prems" show ?thesis by (subst (asm) match_all.simps) simp
  next
    case (Some x)
    obtain b0 b1 t where x: "x = (b0, b1, t)" by (cases x) auto
    from regex_exec_inv[OF Some[unfolded x]] obtain p u
      where d: "s = p @ u @ t" "b0 = rev p @ bef" "b1 = rev u @ b0" by blast
    show ?thesis
    proof (cases "b1 = b0")
      case True
      show ?thesis
      proof (cases t)
        case Nil
        with "1.prems" Some x True show ?thesis by (subst (asm) match_all.simps) simp
      next
        case (Cons c cs)
        with "1.prems" Some x True have "w = [] \<or> w \<in> set (match_all r (c # b1) cs)"
          by (subst (asm) match_all.simps) simp
        then show ?thesis
        proof
          assume "w = []" then show ?thesis by simp
        next
          assume "w \<in> set (match_all r (c # b1) cs)"
          from "1.IH"(1)[OF Some x[symmetric] refl True Cons this] d(1) Cons
          show ?thesis by auto
        qed
      qed
    next
      case False
      with "1.prems" Some x have "w = matched b0 b1 \<or> w \<in> set (match_all r b1 t)"
        by (subst (asm) match_all.simps) simp
      then show ?thesis
      proof
        assume "w = matched b0 b1"
        with d show ?thesis by (auto simp: matched_append)
      next
        assume "w \<in> set (match_all r b1 t)"
        from "1.IH"(2)[OF Some x[symmetric] refl False this] d(1) show ?thesis by auto
      qed
    qed
  qed
qed

lemma getWords_lower: "w \<in> set (getWords text) \<Longrightarrow> toLowerCase w = w"
proof -
  assume "w \<in> set (getWords text)"
  then have "w \<in> set (match_all re_word [] (toLowerCase text))"
    by (auto simp: getWords_def str_match_all_def split: if_splits)
  then have "set w \<subseteq> set (map lower_char text)"
    using match_all_chars[of w re_word "[]" "map lower_char text"] by (simp add: toLowerCase_def)
  then have "\<forall>c \<in> set w. lower_char c = c" by (auto simp: lower_char_idem)
  then show ?thesis by (simp add: toLowerCase_def map_idI)
qed

lemma insert_sorted_key:
  "(\<And>a b. (cmp a b \<le> 0) = (f a \<le> f b)) \<Longrightarrow> insert_sorted cmp x ys = insort_key f x ys"
  by (induction ys) auto

lemma array_sort_key:
  assumes "\<And>a b. (cmp a b \<le> 0) = (f a \<le> f b)"
  shows "array_sort cmp xs = sort_key f xs"
proof -
  have "insert_sorted cmp = insort_key f"
    using insert_sorted_key[of cmp f, OF assms] by (intro ext)
  then show ?thesis by (simp add: array_sort_def sort_key_def)
qed

lemma hd_insort_key:
  "hd (insort_key f x ys) = (if ys = [] \<or> f x \<le> f (hd ys) then x else hd ys)"
  by (cases ys) auto

lemma hd_sort_key_first:
  "xs \<noteq> [] \<Longrightarrow> \<exists>pre post. xs = pre @ hd (sort_key f xs) # post
     \<and> (\<forall>y \<in> set pre. f (hd (sort_key f xs)) < f y)
     \<and> (\<forall>y \<in> set post. f (hd (sort_key f xs)) \<le> f y)"
proof (induction xs)
  case Nil
  then show ?case by simp
next
  case (Cons x xs)
  show ?case
  proof (cases "xs = []")
    case True
    then have "x # xs = [] @ hd (sort_key f (x # xs)) # []" by simp
    then show ?thesis by (metis empty_iff list.set(1))
  next
    case False
    let ?m = "hd (sort_key f xs)"
    from Cons.IH[OF False] obtain pre post where
      d: "xs = pre @ ?m # post" "\<forall>y \<in> set pre. f ?m < f y" "\<forall>y \<in> set post. f ?m \<le> f y"
      by blast
    have ne: "sort_key f xs \<noteq> []" using False by (metis length_sort length_0_conv)
    show ?thesis
    proof (cases "f x \<le> f ?m")
      case True
      then have h: "hd (sort_key f (x # xs)) = x" using ne by (simp add: hd_insort_key)
      have "\<forall>y \<in> set xs. f x \<le> f y"
      proof
        fix y assume "y \<in> set xs"
        then have "y \<in> set pre \<or> y = ?m \<or> y \<in> set post" by (subst (asm) d(1)) auto
        with d(2,3) True show "f x \<le> f y" by fastforce
      qed
      with h have "x # xs = [] @ hd (sort_key f (x # xs)) # xs \<and>
          (\<forall>y \<in> set []. f (hd (sort_key f (x # xs))) < f y) \<and>
          (\<forall>y \<in> set xs. f (hd (sort_key f (x # xs))) \<le> f y)" by simp
      then show ?thesis by blast
    next
      case False
      then have h: "hd (sort_key f (x # xs)) = ?m" using ne by (simp add: hd_insort_key)
      from d False have "x # xs = (x # pre) @ ?m # post \<and>
          (\<forall>y \<in> set (x # pre). f ?m < f y) \<and> (\<forall>y \<in> set post. f ?m \<le> f y)"
        by auto
      with h show ?thesis by metis
    qed
  qed
qed

lemma longest_cmp: "((int (length b) - int (length a)) \<le> 0) = (- int (length a) \<le> - int (length b))"
  by auto

lemma shortest_cmp: "((int (length a) - int (length b)) \<le> 0) = (int (length a) \<le> int (length b))"
  by auto

text \<open>
  Claim C4, as amended. For a text with at least one token, \<open>findLongestAndShortestWords\<close>
  returns the first token of maximal length and the first token of minimal length among the
  tokens of \<open>getWords\<close>, and both are in lower case (lower-casing them changes nothing):
  the case of the input is not preserved.
\<close>

theorem longest_shortest_lower_cased:
  assumes "getWords text \<noteq> []"
  shows "\<exists>pre post pre' post'.
     getWords text = pre @ longest (findLongestAndShortestWords text) # post
     \<and> (\<forall>w \<in> set pre. length w < length (longest (findLongestAndShortestWords text)))
     \<and> (\<forall>w \<in> set post. length w \<le> length (longest (findLongestAndShortestWords text)))
     \<and> getWords text = pre' @ shortest (findLongestAndShortestWords text) # post'
     \<and> (\<forall>w \<in> set pre'. length (shortest (findLongestAndShortestWords text)) < length w)
     \<and> (\<forall>w \<in> set post'. length (shortest (findLongestAndShortestWords text)) \<le> length w)
     \<and> toLowerCase (longest (findLongestAndShortestWords text)) = longest (findLongestAndShortestWords text)
     \<and> toLowerCase (shortest (findLongestAndShortestWords text)) = shortest (findLongestAndShortestWords text)"
proof -
  let ?ws = "getWords text"
  let ?l = "hd (sort_key (\<lambda>w. - int (length w)) ?ws)"
  let ?s = "hd (sort_key (\<lambda>w. int (length w)) ?ws)"
  have sl: "array_sort (\<lambda>a b. int (length b) - int (length a)) ?ws = sort_key (\<lambda>w. - int (length w)) ?ws"
    by (rule array_sort_key) (rule longest_cmp)
  have ss: "array_sort (\<lambda>a b. int (length a) - int (length b)) ?ws = sort_key (\<lambda>w. int (length w)) ?ws"
    by (rule array_sort_key) (rule shortest_cmp)
  have l: "longest (findLongestAndShortestWords text) = ?l"
    using assms by (simp add: findLongestAndShortestWords_def Let_def sl)
  have s: "shortest (findLongestAndShortestWords text) = ?s"
    using assms by (simp add: findLongestAndShortestWords_def Let_def ss)
  from hd_sort_key_first[OF assms, of "\<lambda>w. - int (length w)"] obtain pre post where
    a: "?ws = pre @ ?l # post" "\<forall>w \<in> set pre. length w < length ?l"
       "\<forall>w \<in> set post. length w \<le> length ?l" by auto
  from hd_sort_key_first[OF assms, of "\<lambda>w. int (length w)"] obtain pre' post' where
    b: "?ws = pre' @ ?s # post'" "\<forall>w \<in> set pre'. length ?s < length w"
       "\<forall>w \<in> set post'. length ?s \<le> length w" by auto
  have "?l \<in> set ?ws" by (subst a(1)) simp
  then have ll: "toLowerCase ?l = ?l" by (rule getWords_lower)
  have "?s \<in> set ?ws" by (subst b(1)) simp
  then have ls: "toLowerCase ?s = ?s" by (rule getWords_lower)
  from a b ll ls show ?thesis unfolding l s by blast
qed

text \<open>A witness for C4 as amended, on a text with capital letters.\<close>

theorem longest_shortest_lower_cased_witness:
  "getWords ''Hello big World a bc'' \<noteq> [] \<and>
   findLongestAndShortestWords ''Hello big World a bc'' = \<lparr>longest = ''hello'', shortest = ''a''\<rparr> \<and>
   (\<exists>pre post pre' post'.
     getWords ''Hello big World a bc'' = pre @ ''hello'' # post
     \<and> (\<forall>w \<in> set pre. length w < length ''hello'')
     \<and> getWords ''Hello big World a bc'' = pre' @ ''a'' # post'
     \<and> (\<forall>w \<in> set pre'. length ''a'' < length w))"
proof -
  have ne: "getWords ''Hello big World a bc'' \<noteq> []" by code_simp
  have v: "findLongestAndShortestWords ''Hello big World a bc'' = \<lparr>longest = ''hello'', shortest = ''a''\<rparr>"
    by code_simp
  from longest_shortest_lower_cased[OF ne] ne v show ?thesis by (simp only: v word_extremes.simps) blast
qed

text \<open>
  The counterexample to C4 as stated: for \<^verbatim>\<open>"Hello"\<close> the longest and the shortest word are
  returned as \<^verbatim>\<open>"hello"\<close>, which is not the word as it stands in the input.
\<close>

theorem longest_word_case_folded:
  "findLongestAndShortestWords ''Hello'' = \<lparr>longest = ''hello'', shortest = ''hello''\<rparr> \<and>
   ''hello'' \<noteq> ''Hello''"
  by code_simp

subsection \<open>Language detection on a text without tokens\<close>

text \<open>
  Claim C9. For a text that is not empty after trimming and in which \<open>getWords\<close> finds no
  token, the ratio of \<open>detectLanguage\<close> is the quotient of zero by zero, which is
  \<open>NaN\<close> and no failure; the comparison with 0.2 is false and the result is
  \<^verbatim>\<open>"English (likely)"\<close>.
\<close>

theorem detectLanguage_no_tokens:
  assumes "trim text \<noteq> []" "getWords text = []"
  shows "js_div (number_of_nat (length (filter (\<lambda>w. w \<in> set commonEnglishWords) (take 50 (getWords text)))))
                (number_of_nat (min (length (take 50 (getWords text))) 50)) = NaN
         \<and> detectLanguage text = ''English (likely)''"
proof -
  from assms(1) have "text \<noteq> []" by (auto simp: trim_Nil)
  with assms show ?thesis
    by (simp add: detectLanguage_def number_of_nat_def js_gt_def literal_def)
qed

text \<open>A witness for C9: punctuation only.\<close>

theorem detectLanguage_no_tokens_witness:
  "trim ''!!!'' \<noteq> [] \<and> getWords ''!!!'' = [] \<and> detectLanguage ''!!!'' = ''English (likely)''"
proof -
  have a: "trim ''!!!'' \<noteq> []" by code_simp
  have b: "getWords ''!!!'' = []" by code_simp
  from detectLanguage_no_tokens[OF a b] a b show ?thesis by simp
qed

subsection \<open>Paragraphs\<close>

lemma blank_rest_spaces: "\<forall>c \<in> set u. is_space c \<Longrightarrow> blank_rest (u @ CHR 0x0A # t)"
  by (induction u) auto

lemma blank_rest_append: "blank_rest s \<Longrightarrow> blank_rest (s @ t)"
  by (induction s) auto

lemma has_blank_line_append: "has_blank_line s \<Longrightarrow> has_blank_line (s @ t)"
  by (induction s) (auto simp: blank_rest_append)

lemma has_blank_line_prepend: "has_blank_line s \<Longrightarrow> has_blank_line (p @ s)"
  by (induction p) auto

lemma has_blank_line_trim: "has_blank_line (trim s) \<Longrightarrow> has_blank_line s"
proof -
  assume h: "has_blank_line (trim s)"
  from trim_decomp[of s] obtain lead trail where "s = lead @ trim s @ trail" by blast
  moreover from h have "has_blank_line (lead @ trim s @ trail)"
    by (intro has_blank_line_prepend has_blank_line_append)
  ultimately show ?thesis by simp
qed

lemma matches_Seq_iff:
  "x \<in> set (matches (Seq r1 r2) bef s) \<longleftrightarrow>
     (\<exists>b t. (b, t) \<in> set (matches r1 bef s) \<and> x \<in> set (matches r2 b t))"
  by auto

lemma matches_Class_iff:
  "(b, t) \<in> set (matches (Class P) bef s) \<longleftrightarrow> (\<exists>c. s = c # t \<and> P c \<and> b = c # bef)"
  by (cases s) auto

lemma matches_blank_line:
  assumes "x \<in> set (matches re_blank_line bef s)"
  shows "\<exists>cs. s = CHR 0x0A # cs \<and> blank_rest cs"
proof (cases s)
  case Nil
  with assms show ?thesis by (simp add: re_blank_line_def)
next
  case (Cons c cs)
  let ?nl = "Class (one_of [CHR 0x0A])"
  from assms Cons obtain b0 t0 where
    h: "(b0, t0) \<in> set (matches ?nl bef (c # cs))"
    and x0: "x \<in> set (matches (Seq (Repeat is_space 0 None) ?nl) b0 t0)"
    unfolding re_blank_line_def matches_Seq_iff[of x ?nl] by blast
  from h have c: "c = CHR 0x0A" and bt: "b0 = c # bef" "t0 = cs"
    unfolding matches_Class_iff by (auto simp: one_of_def)
  from x0 obtain b t where
    r: "(b, t) \<in> set (matches (Repeat is_space 0 None) b0 t0)"
    and m: "x \<in> set (matches ?nl b t)"
    unfolding matches_Seq_iff[of x "Repeat is_space 0 None"] by blast
  from r bt have r: "(b, t) \<in> set (rep_greedy is_space 0 None (c # bef) cs)" by simp
  obtain xb xt where xx: "x = (xb, xt)" by (cases x) auto
  from m obtain t' where t: "t = CHR 0x0A # t'"
    unfolding xx matches_Class_iff by (auto simp: one_of_def)
  from rep_greedy_inv[OF r] obtain u where "cs = u @ t" "\<forall>c \<in> set u. is_space c" by blast
  with t have "blank_rest cs" by (simp add: blank_rest_spaces)
  with Cons c show ?thesis by simp
qed

lemma split_no_blank_line:
  "\<not> has_blank_line s \<Longrightarrow> split_loop re_blank_line piece bef s = [rev piece @ s]"
proof (induction s arbitrary: piece bef)
  case Nil
  then show ?case by simp
next
  case (Cons c cs)
  have "matches re_blank_line bef (c # cs) = []"
  proof (rule ccontr)
    assume "matches re_blank_line bef (c # cs) \<noteq> []"
    then obtain x where "x \<in> set (matches re_blank_line bef (c # cs))"
      by (cases "matches re_blank_line bef (c # cs)") auto
    from matches_blank_line[OF this] Cons.prems show False by auto
  qed
  moreover from Cons.prems have "\<not> has_blank_line cs" by simp
  ultimately show ?case using Cons.IH[of "c # piece" "c # bef"] by simp
qed

text \<open>
  Claim C7. \<open>countParagraphs\<close> returns 0 exactly for a text that is empty or white space
  only. For any other text it splits the trimmed text on blank-line separators, counts the
  pieces that are not empty after trimming, and returns 1 where that count is 0; a text
  without a blank-line separator is one paragraph.
\<close>

theorem countParagraphs_cases:
  "(countParagraphs text = 0 \<longleftrightarrow> (\<forall>c \<in> set text. is_space c)) \<and>
   (\<not> (\<forall>c \<in> set text. is_space c) \<longrightarrow>
      countParagraphs text =
        (let n = length (filter (\<lambda>p. trim p \<noteq> []) (str_split re_blank_line (trim text)))
         in if n = 0 then 1 else n)) \<and>
   (\<not> (\<forall>c \<in> set text. is_space c) \<and> \<not> has_blank_line text \<longrightarrow> countParagraphs text = 1)"
proof -
  have blank: "(text = [] \<or> length (trim text) = 0) = (\<forall>c \<in> set text. is_space c)"
    using trim_eq_Nil[of "text"] by (auto simp: trim_Nil)
  have a: "countParagraphs text = 0 \<longleftrightarrow> (\<forall>c \<in> set text. is_space c)"
    unfolding countParagraphs_def blank by (simp add: Let_def)
  have b: "countParagraphs text =
        (let n = length (filter (\<lambda>p. trim p \<noteq> []) (str_split re_blank_line (trim text)))
         in if n = 0 then 1 else n)" if "\<not> (\<forall>c \<in> set text. is_space c)"
    using that unfolding countParagraphs_def blank by (simp add: Let_def)
  have c: "countParagraphs text = 1"
    if ns: "\<not> (\<forall>c \<in> set text. is_space c)" and nb: "\<not> has_blank_line text"
  proof -
    from ns have ne: "trim text \<noteq> []" by (simp add: trim_eq_Nil)
    from nb have "\<not> has_blank_line (trim text)" using has_blank_line_trim by blast
    then have "split_loop re_blank_line [] [] (trim text) = [trim text]"
      using split_no_blank_line[of "trim text" "[]" "[]"] by simp
    with ne have "str_split re_blank_line (trim text) = [trim text]"
      by (simp add: str_split_def)
    with ne b[OF ns] show ?thesis by (simp add: trim_trim)
  qed
  from a b c show ?thesis by blast
qed

text \<open>
  A witness for C7: a blank text, a text without a separator, and two paragraphs separated
  by a line that holds a space.
\<close>

theorem countParagraphs_cases_witness:
  "countParagraphs '' '' = 0 \<and> countParagraphs ''one two'' = 1 \<and> \<not> has_blank_line ''one two''
   \<and> countParagraphs [CHR ''a'', CHR 0x0A, CHR 0x20, CHR 0x0A, CHR ''b''] = 2"
proof -
  have s: "\<forall>c \<in> set '' ''. is_space c" by (simp add: is_space_def)
  have n: "\<not> (\<forall>c \<in> set ''one two''. is_space c)" by (simp add: is_space_def)
  have b: "\<not> has_blank_line ''one two''" by simp
  have n2: "\<not> (\<forall>c \<in> set [CHR ''a'', CHR 0x0A, CHR 0x20, CHR 0x0A, CHR ''b'']. is_space c)"
    by (simp add: is_space_def)
  have v: "(let n = length (filter (\<lambda>p. trim p \<noteq> [])
               (str_split re_blank_line (trim [CHR ''a'', CHR 0x0A, CHR 0x20, CHR 0x0A, CHR ''b''])))
            in if n = 0 then 1 else n) = (2 :: nat)" by code_simp
  from countParagraphs_cases[of "'' ''"] s have "countParagraphs '' '' = 0" by blast
  moreover from countParagraphs_cases[of "''one two''"] n b have "countParagraphs ''one two'' = 1"
    by blast
  moreover from countParagraphs_cases[of "[CHR ''a'', CHR 0x0A, CHR 0x20, CHR 0x0A, CHR ''b'']"] n2 v
  have "countParagraphs [CHR ''a'', CHR 0x0A, CHR 0x20, CHR 0x0A, CHR ''b''] = 2" by metis
  ultimately show ?thesis using b by blast
qed

subsection \<open>Syllables of a word\<close>

lemma matches_suffix_long:
  "3 < length s \<Longrightarrow> matches re_silent_suffix bef s = []"
proof -
  assume "3 < length s"
  then obtain a b c d r where "s = a # b # c # d # r"
    by (cases s; cases "tl s"; cases "tl (tl s)"; cases "tl (tl (tl s))") auto
  then show ?thesis by (simp add: re_silent_suffix_def)
qed

lemma exec_suffix_skip:
  "regex_exec re_silent_suffix bef (p @ [a, b, c]) = regex_exec re_silent_suffix (rev p @ bef) [a, b, c]"
proof (induction p arbitrary: bef)
  case Nil
  show ?case by simp
next
  case (Cons x p)
  have "matches re_silent_suffix bef (x # p @ [a, b, c]) = []"
    by (rule matches_suffix_long) simp
  then show ?case using Cons[of "x # bef"] by simp
qed

lemma exec_suffix_three:
  "regex_exec re_silent_suffix B [a, b, c] =
     (if none_of ''laeiouy'' a \<and> b = CHR ''e'' \<and> c = CHR ''s'' then Some (B, c # b # a # B, [])
      else if (b = CHR ''e'' \<and> c = CHR ''d'') \<or> (none_of ''laeiouy'' b \<and> c = CHR ''e'')
      then Some (a # B, c # b # a # B, [])
      else None)"
  by (auto simp: re_silent_suffix_def one_of_def none_of_def)

lemma replace_suffix_three:
  "str_replace re_silent_suffix [] (p @ [a, b, c]) =
     (if none_of ''laeiouy'' a \<and> b = CHR ''e'' \<and> c = CHR ''s'' then p
      else if (b = CHR ''e'' \<and> c = CHR ''d'') \<or> (none_of ''laeiouy'' b \<and> c = CHR ''e'')
      then p @ [a]
      else p @ [a, b, c])"
  unfolding str_replace_def exec_suffix_skip exec_suffix_three by simp

lemma remove_suffix_three:
  "remove_silent_suffix (p @ [a, b, c]) =
     (if none_of ''laeiouy'' a \<and> b = CHR ''e'' \<and> c = CHR ''s'' then p
      else if (b = CHR ''e'' \<and> c = CHR ''d'') \<or> (none_of ''laeiouy'' b \<and> c = CHR ''e'')
      then p @ [a]
      else p @ [a, b, c])"
  by (auto simp: remove_silent_suffix_def Let_def nth_append)

lemma three_last: "3 \<le> length w \<Longrightarrow> \<exists>p a b c. w = p @ [a, b, c]"
proof -
  assume "3 \<le> length w"
  then have "3 \<le> length (rev w)" by simp
  then obtain c b a r where "rev w = c # b # a # r"
    by (cases "rev w"; cases "tl (rev w)"; cases "tl (tl (rev w))") auto
  then have "w = rev r @ [a, b, c]" by simp
  then show ?thesis by blast
qed

lemma replace_silent_suffix: "str_replace re_silent_suffix [] w = remove_silent_suffix w"
proof (cases "3 \<le> length w")
  case True
  from three_last[OF this] obtain p a b c where "w = p @ [a, b, c]" by blast
  then show ?thesis by (simp only: replace_suffix_three remove_suffix_three)
next
  case False
  then consider "w = []" | a where "w = [a]" | a b where "w = [a, b]"
    by (cases w; cases "tl w"; cases "tl (tl w)") auto
  then show ?thesis
    by cases (auto simp: str_replace_def remove_silent_suffix_def re_silent_suffix_def
        one_of_def none_of_def)
qed

lemma exec_leading_y_later: "bef \<noteq> [] \<Longrightarrow> regex_exec re_leading_y bef s = None"
  by (induction s arbitrary: bef) (auto simp: re_leading_y_def)

lemma replace_leading_y: "str_replace re_leading_y [] w = remove_leading_y w"
proof (cases w)
  case Nil
  then show ?thesis by (simp add: str_replace_def remove_leading_y_def re_leading_y_def)
next
  case (Cons c cs)
  show ?thesis
  proof (cases "c = CHR ''y''")
    case True
    with Cons show ?thesis
      by (simp add: str_replace_def remove_leading_y_def re_leading_y_def one_of_def)
  next
    case False
    then have "matches re_leading_y [] (c # cs) = []" by (simp add: re_leading_y_def one_of_def)
    then have "regex_exec re_leading_y [] (c # cs) = regex_exec re_leading_y [c] cs" by simp
    also have "\<dots> = None" by (rule exec_leading_y_later) simp
    finally show ?thesis using Cons False by (simp add: str_replace_def remove_leading_y_def)
  qed
qed


lemma matches_vowels_none:
  "\<not> one_of ''aeiouy'' a \<Longrightarrow> matches re_vowels bef (a # cs) = []"
  by (simp add: re_vowels_def)

lemma matches_vowels_two:
  "one_of ''aeiouy'' a \<Longrightarrow> one_of ''aeiouy'' b \<Longrightarrow>
     matches re_vowels bef (a # b # cs) = [(b # a # bef, cs), (a # bef, b # cs)]"
  by (cases cs) (simp_all add: re_vowels_def)

lemma matches_vowels_one:
  "one_of ''aeiouy'' a \<Longrightarrow> cs = [] \<or> \<not> one_of ''aeiouy'' (hd cs) \<Longrightarrow>
     matches re_vowels bef (a # cs) = [(a # bef, cs)]"
  by (cases cs) (auto simp: re_vowels_def)

lemma match_all_step:
  "matches r bef (c # cs) = (b1, t) # rest \<Longrightarrow> b1 \<noteq> bef \<Longrightarrow>
     match_all r bef (c # cs) = matched bef b1 # match_all r b1 t"
  by (subst match_all.simps) simp

lemma match_all_Nil: "matches r bef [] = [] \<Longrightarrow> match_all r bef [] = []"
  by (subst match_all.simps) simp

lemma length_match_all_vowels: "length (match_all re_vowels bef s) = vowel_groups s"
proof (induction s arbitrary: bef rule: vowel_groups.induct)
  case 1
  show ?case by (simp add: match_all_Nil re_vowels_def)
next
  case (2 a)
  show ?case
  proof (cases "one_of ''aeiouy'' a")
    case True
    then have "match_all re_vowels bef [a] = matched bef (a # bef) # match_all re_vowels (a # bef) []"
      by (intro match_all_step[where rest = "[]"]) (simp_all add: matches_vowels_one)
    then show ?thesis using True by (simp add: match_all_Nil re_vowels_def)
  next
    case False
    then have "match_all re_vowels bef [a] = match_all re_vowels (a # bef) []"
      by (intro match_all_skip matches_vowels_none)
    then show ?thesis using False by (simp add: match_all_Nil re_vowels_def)
  qed
next
  case (3 a b cs)
  show ?case
  proof (cases "one_of ''aeiouy'' a")
    case False
    then have "match_all re_vowels bef (a # b # cs) = match_all re_vowels (a # bef) (b # cs)"
      by (intro match_all_skip matches_vowels_none)
    then show ?thesis using False "3.IH"(3)[of "a # bef"] by simp
  next
    case a: True
    show ?thesis
    proof (cases "one_of ''aeiouy'' b")
      case True
      with a have "match_all re_vowels bef (a # b # cs)
          = matched bef (b # a # bef) # match_all re_vowels (b # a # bef) cs"
        by (intro match_all_step[where rest = "[(a # bef, b # cs)]"]) (simp_all add: matches_vowels_two)
      then show ?thesis using a True "3.IH"(1)[of "b # a # bef"] by simp
    next
      case False
      with a have "match_all re_vowels bef (a # b # cs)
          = matched bef (a # bef) # match_all re_vowels (a # bef) (b # cs)"
        by (intro match_all_step[where rest = "[]"]) (simp_all add: matches_vowels_one)
      then show ?thesis using a False "3.IH"(2)[of "a # bef"] by simp
    qed
  qed
qed

text \<open>
  Claim C3, as amended. \<open>countSyllablesInWord\<close> lower-cases the word and returns 1 if
  its length is at most 3. Otherwise it removes a trailing \<^verbatim>\<open>es\<close> with the character before
  it if that character is none of \<^verbatim>\<open>l a e i o u y\<close>, or else a trailing \<^verbatim>\<open>ed\<close> alone
  (whatever precedes it), or else a trailing \<^verbatim>\<open>e\<close> with the character before it if that
  character is none of \<^verbatim>\<open>l a e i o u y\<close>; removes a leading \<^verbatim>\<open>y\<close>; counts the groups of
  one or two consecutive vowels of \<^verbatim>\<open>aeiouy\<close>, taken greedily from the left; and returns
  that count, or 1 if it is 0. The word \<^verbatim>\<open>the\<close> has 1 syllable and \<^verbatim>\<open>reading\<close> has 2.
\<close>

theorem countSyllablesInWord_steps:
  "countSyllablesInWord wd = syllable_steps wd \<and>
   countSyllablesInWord ''the'' = 1 \<and> countSyllablesInWord ''reading'' = 2"
proof -
  let ?w = "remove_leading_y (remove_silent_suffix (toLowerCase wd))"
  have len: "length (match_all re_vowels [] ?w) = vowel_groups ?w"
    by (rule length_match_all_vowels)
  then have ne: "(match_all re_vowels [] ?w \<noteq> []) = (vowel_groups ?w \<noteq> 0)"
    by (metis length_0_conv)
  have "countSyllablesInWord wd = syllable_steps wd"
    unfolding countSyllablesInWord_def syllable_steps_def Let_def str_match_all_def
      replace_silent_suffix replace_leading_y ne len by simp
  moreover have "countSyllablesInWord ''the'' = 1" by code_simp
  moreover have "countSyllablesInWord ''reading'' = 2" by code_simp
  ultimately show ?thesis by simp
qed

text \<open>A witness for C3 as amended, on words that end in \<^verbatim>\<open>les\<close> and \<^verbatim>\<open>ed\<close>.\<close>

theorem countSyllablesInWord_steps_witness:
  "countSyllablesInWord ''Tables'' = 2 \<and> countSyllablesInWord ''booed'' = 1 \<and>
   countSyllablesInWord ''yes'' = 1 \<and> countSyllablesInWord ''rhythm'' = 1"
proof -
  have "syllable_steps ''Tables'' = 2" by code_simp
  moreover have "syllable_steps ''booed'' = 1" by code_simp
  moreover have "syllable_steps ''yes'' = 1" by code_simp
  moreover have "syllable_steps ''rhythm'' = 1" by code_simp
  ultimately show ?thesis
    using countSyllablesInWord_steps[of "''Tables''"] countSyllablesInWord_steps[of "''booed''"]
      countSyllablesInWord_steps[of "''yes''"] countSyllablesInWord_steps[of "''rhythm''"]
    by simp
qed

text \<open>
  The counterexample to C3 as stated: in \<^verbatim>\<open>table\<close> the consonant \<^verbatim>\<open>l\<close> and the silent
  \<^verbatim>\<open>e\<close> stay, so the code counts 2 where the steps of the claim give 1; in \<^verbatim>\<open>booed\<close> the
  code removes \<^verbatim>\<open>ed\<close> after a vowel and counts 1 where the steps of the claim give 2.
\<close>

theorem countSyllablesInWord_keeps_le:
  "countSyllablesInWord ''table'' = 2 \<and> syllables_as_claimed ''table'' = 1 \<and>
   countSyllablesInWord ''booed'' = 1 \<and> syllables_as_claimed ''booed'' = 2"
  by code_simp

subsection \<open>Rounding to a double\<close>

text \<open>
  \<open>fl\<close> is monotone, and it leaves unchanged every \<open>m * 2 powi e\<close> with
  \<open>0 < m < 2 ^ 53\<close>, in particular every count below \<open>2 ^ 53\<close>.
\<close>

lemma rhe_near: "of_int (round_half_even q) - 1 / 2 \<le> q \<and> q \<le> of_int (round_half_even q) + 1 / 2"
  unfolding round_half_even_def Let_def by (auto; linarith)

lemma rhe_of_int: "round_half_even (of_int n) = n"
  by (simp add: round_half_even_def)

lemma rhe_le_int: "q \<le> of_int n \<Longrightarrow> round_half_even q \<le> n"
proof -
  assume "q \<le> of_int n"
  with rhe_near[of q] have "(of_int (round_half_even q) :: rat) \<le> of_int n + 1 / 2" by linarith
  then have "(of_int (round_half_even q) :: rat) < of_int (n + 1)" by simp
  then show ?thesis by simp
qed

lemma rhe_ge_int: "of_int n \<le> q \<Longrightarrow> n \<le> round_half_even q"
proof -
  assume "of_int n \<le> q"
  with rhe_near[of q] have "(of_int n :: rat) \<le> of_int (round_half_even q) + 1 / 2" by linarith
  then have "(of_int (n - 1) :: rat) < of_int (round_half_even q)" by simp
  then show ?thesis by simp
qed

lemma rhe_mono: "q \<le> q' \<Longrightarrow> round_half_even q \<le> round_half_even q'"
proof (rule ccontr)
  assume le: "q \<le> q'" and "\<not> round_half_even q \<le> round_half_even q'"
  then have "round_half_even q' + 1 \<le> round_half_even q" by simp
  then have "(of_int (round_half_even q') :: rat) + 1 \<le> of_int (round_half_even q)"
    by (metis of_int_le_iff of_int_add of_int_1)
  with rhe_near[of q] rhe_near[of q'] le have "q = q'" by linarith
  with \<open>\<not> round_half_even q \<le> round_half_even q'\<close> show False by simp
qed


lemma expo_neg: "expo (- x) = expo x"
  by (simp add: expo_def)

lemma expo_abs: "expo \<bar>x\<bar> = expo x"
  by (simp add: expo_def)

lemma powi_neg: "0 \<le> j \<Longrightarrow> (2::rat) powi (- j) = 1 / 2 ^ nat j"
  by (simp only: power_int_minus_divide power_int_nonneg_exp)

lemma expo_bounds:
  assumes "x \<noteq> 0"
  shows "2 powi (expo x) \<le> \<bar>x\<bar>" "\<bar>x\<bar> < 2 powi (expo x + 1)"
proof -
  have "2 powi (expo x) \<le> \<bar>x\<bar> \<and> \<bar>x\<bar> < 2 powi (expo x + 1)"
  proof (cases "1 \<le> \<bar>x\<bar>")
    case True
    let ?n = "\<lfloor>\<bar>x\<bar>\<rfloor>"
    have n: "1 \<le> ?n" using True by simp
    then have pos: "0 < ?n" by simp
    from bitlen_bounds[OF pos] have b: "2 ^ nat (bitlen ?n - 1) \<le> ?n" "?n < 2 ^ nat (bitlen ?n)"
      by simp_all
    have bl: "1 \<le> bitlen ?n" using pos by (simp add: bitlen_alt_def)
    have e: "expo x = bitlen ?n - 1" using True by (simp add: expo_def)
    have "(2::rat) powi (expo x) = of_int (2 ^ nat (bitlen ?n - 1))"
      using bl by (simp add: e power_int_nonneg_exp)
    also have "\<dots> \<le> of_int ?n" using b(1) by (simp only: of_int_le_iff)
    also have "\<dots> \<le> \<bar>x\<bar>" by simp
    finally have lo: "2 powi (expo x) \<le> \<bar>x\<bar>" .
    have "?n + 1 \<le> 2 ^ nat (bitlen ?n)" using b(2) by simp
    then have "(of_int (?n + 1) :: rat) \<le> of_int (2 ^ nat (bitlen ?n))"
      by (simp only: of_int_le_iff)
    moreover have "\<bar>x\<bar> < of_int (?n + 1)" using floor_correct[of "\<bar>x\<bar>"] by simp
    moreover have "(2::rat) powi (expo x + 1) = of_int (2 ^ nat (bitlen ?n))"
      using bl by (simp add: e power_int_nonneg_exp)
    ultimately have "\<bar>x\<bar> < 2 powi (expo x + 1)" by simp
    with lo show ?thesis by simp
  next
    case False
    let ?y = "1 / \<bar>x\<bar>"
    let ?m = "\<lceil>?y\<rceil> - 1"
    let ?k = "bitlen ?m"
    have ax: "0 < \<bar>x\<bar>" "\<bar>x\<bar> < 1" using assms False by simp_all
    then have y1: "1 < ?y" by simp
    then have "1 < \<lceil>?y\<rceil>" by (simp add: less_ceiling_iff)
    then have m: "0 < ?m" by simp
    from bitlen_bounds[OF m] have b: "2 ^ nat (?k - 1) \<le> ?m" "?m < 2 ^ nat ?k" by simp_all
    have k: "1 \<le> ?k" using m by (simp add: bitlen_alt_def)
    have e: "expo x = - ?k" using False by (simp add: expo_def)
    have my: "of_int ?m < ?y" "?y \<le> of_int ?m + 1"
      using ceiling_correct[of ?y] by simp_all
    have "?m + 1 \<le> 2 ^ nat ?k" using b(2) by simp
    then have c1: "(of_int (?m + 1) :: rat) \<le> of_int (2 ^ nat ?k)" by (simp only: of_int_le_iff)
    have "?y \<le> of_int ?m + 1" by (rule my(2))
    also have "\<dots> = of_int (?m + 1)" by simp
    also have "\<dots> \<le> of_int (2 ^ nat ?k)" by (rule c1)
    also have "\<dots> = 2 ^ nat ?k" by simp
    finally have yk: "?y \<le> 2 ^ nat ?k" .
    have c2: "(of_int (2 ^ nat (?k - 1)) :: rat) \<le> of_int ?m" using b(1) by (simp only: of_int_le_iff)
    have "(2::rat) ^ nat (?k - 1) = of_int (2 ^ nat (?k - 1))" by simp
    also have "\<dots> \<le> of_int ?m" by (rule c2)
    also have "\<dots> < ?y" by (rule my(1))
    finally have ky: "2 ^ nat (?k - 1) < ?y" .
    have p1: "(2::rat) powi (expo x) = 1 / 2 ^ nat ?k"
      unfolding e using k by (intro powi_neg) simp
    have p2: "(2::rat) powi (expo x + 1) = 1 / 2 ^ nat (?k - 1)"
    proof -
      have "expo x + 1 = - (?k - 1)" by (simp add: e)
      moreover have "(2::rat) powi (- (?k - 1)) = 1 / 2 ^ nat (?k - 1)"
        using k by (intro powi_neg) simp
      ultimately show ?thesis by (simp only:)
    qed
    have lo: "2 powi (expo x) \<le> \<bar>x\<bar>"
    proof -
      from yk ax(1) have "1 \<le> 2 ^ nat ?k * \<bar>x\<bar>" by (simp add: field_simps)
      then show ?thesis unfolding p1 by (simp add: field_simps)
    qed
    have hi: "\<bar>x\<bar> < 2 powi (expo x + 1)"
    proof -
      from ky ax(1) have "2 ^ nat (?k - 1) * \<bar>x\<bar> < 1" by (simp add: field_simps)
      then show ?thesis unfolding p2 by (simp add: field_simps)
    qed
    from lo hi show ?thesis by simp
  qed
  then show "2 powi (expo x) \<le> \<bar>x\<bar>" "\<bar>x\<bar> < 2 powi (expo x + 1)" by simp_all
qed

lemma expo_unique:
  assumes "2 powi k \<le> \<bar>x\<bar>" "\<bar>x\<bar> < 2 powi (k + 1)"
  shows "expo x = k"
proof -
  have x0: "x \<noteq> 0"
  proof
    assume "x = 0"
    with assms(1) have "(2::rat) powi k \<le> 0" by simp
    moreover have "(0::rat) < 2 powi k" by simp
    ultimately show False by simp
  qed
  note b = expo_bounds[OF x0]
  have "\<not> expo x < k"
  proof
    assume "expo x < k"
    then have "expo x + 1 \<le> k" by simp
    then have "(2::rat) powi (expo x + 1) \<le> 2 powi k" by (intro power_int_increasing) simp_all
    with b(2) assms(1) show False by simp
  qed
  moreover have "\<not> k < expo x"
  proof
    assume "k < expo x"
    then have "k + 1 \<le> expo x" by simp
    then have "(2::rat) powi (k + 1) \<le> 2 powi (expo x)" by (intro power_int_increasing) simp_all
    with b(1) assms(2) show False by simp
  qed
  ultimately show ?thesis by simp
qed

lemma expo_mono:
  assumes "x \<noteq> 0" "\<bar>x\<bar> \<le> \<bar>y\<bar>"
  shows "expo x \<le> expo y"
proof (rule ccontr)
  assume "\<not> expo x \<le> expo y"
  then have "expo y + 1 \<le> expo x" by simp
  then have "(2::rat) powi (expo y + 1) \<le> 2 powi (expo x)" by (intro power_int_increasing) simp_all
  moreover have "y \<noteq> 0" using assms by auto
  ultimately show False using expo_bounds[OF assms(1)] expo_bounds[OF \<open>y \<noteq> 0\<close>] assms(2) by simp
qed


lemma fl_pos:
  "0 < x \<Longrightarrow> fl x = of_int (round_half_even (x / 2 powi (expo x - 52))) * 2 powi (expo x - 52)"
  by (simp add: fl_def Let_def)

lemma fl_neg: "fl (- x) = - fl x"
  by (simp add: fl_def Let_def expo_neg)

lemma ulp_scale:
  "of_int (2 ^ 52) * (2::rat) powi (e - 52) = 2 powi e"
  "of_int (2 ^ 53) * (2::rat) powi (e - 52) = 2 powi (e + 1)"
proof -
  have "(2::rat) powi 52 * 2 powi (e - 52) = 2 powi (52 + (e - 52))"
    by (rule power_int_add[symmetric]) simp
  moreover have "52 + (e - 52) = e" by simp
  moreover have "(2::rat) powi 52 = of_int (2 ^ 52)" by simp
  ultimately show "of_int (2 ^ 52) * (2::rat) powi (e - 52) = 2 powi e" by (simp only:)
  have "(2::rat) powi 53 * 2 powi (e - 52) = 2 powi (53 + (e - 52))"
    by (rule power_int_add[symmetric]) simp
  moreover have "53 + (e - 52) = e + 1" by simp
  moreover have "(2::rat) powi 53 = of_int (2 ^ 53)" by simp
  ultimately show "of_int (2 ^ 53) * (2::rat) powi (e - 52) = 2 powi (e + 1)" by (simp only:)
qed

lemma fl_pos_range:
  assumes "0 < x"
  shows "2 powi (expo x) \<le> fl x" "fl x \<le> 2 powi (expo x + 1)"
proof -
  define u :: rat where "u = 2 powi (expo x - 52)"
  define lo :: int where "lo = 2 ^ 52"
  define hi :: int where "hi = 2 ^ 53"
  define r where "r = round_half_even (x / u)"
  have u: "0 < u" by (simp add: u_def)
  from assms have x0: "x \<noteq> 0" and ax: "\<bar>x\<bar> = x" by simp_all
  from expo_bounds[OF x0] ax have b: "2 powi (expo x) \<le> x" "x < 2 powi (expo x + 1)" by simp_all
  have sl: "of_int lo * u = 2 powi (expo x)" unfolding lo_def u_def by (rule ulp_scale(1))
  have sh: "of_int hi * u = 2 powi (expo x + 1)" unfolding hi_def u_def by (rule ulp_scale(2))
  have f: "fl x = of_int r * u" unfolding r_def u_def using assms by (rule fl_pos)
  have "of_int lo * u \<le> x" using b(1) sl by simp
  then have "of_int lo \<le> x / u" using u by (simp add: pos_le_divide_eq)
  then have "lo \<le> r" unfolding r_def by (rule rhe_ge_int)
  then have "(of_int lo :: rat) \<le> of_int r" by (simp only: of_int_le_iff)
  then have "of_int lo * u \<le> of_int r * u" using u by (simp only: mult_le_cancel_right_pos)
  then show "2 powi (expo x) \<le> fl x" using sl f by simp
  have "x \<le> of_int hi * u" using b(2) sh by simp
  then have "x / u \<le> of_int hi" using u by (simp add: pos_divide_le_eq)
  then have "r \<le> hi" unfolding r_def by (rule rhe_le_int)
  then have "(of_int r :: rat) \<le> of_int hi" by (simp only: of_int_le_iff)
  then have "of_int r * u \<le> of_int hi * u" using u by (simp only: mult_le_cancel_right_pos)
  then show "fl x \<le> 2 powi (expo x + 1)" using sh f by simp
qed

lemma fl_nonneg: "0 \<le> x \<Longrightarrow> 0 \<le> fl x"
proof (cases "x = 0")
  case True
  then show ?thesis by (simp add: fl_def)
next
  case False
  assume "0 \<le> x"
  with False have "0 < x" by simp
  from fl_pos_range(1)[OF this] have "(2::rat) powi (expo x) \<le> fl x" .
  moreover have "(0::rat) < 2 powi (expo x)" by simp
  ultimately show ?thesis by linarith
qed

lemma fl_mono_pos:
  assumes "0 < x" "x \<le> y"
  shows "fl x \<le> fl y"
proof -
  from assms have y: "0 < y" by simp
  from assms have "expo x \<le> expo y" by (intro expo_mono) simp_all
  then consider "expo x = expo y" | "expo x + 1 \<le> expo y" by linarith
  then show ?thesis
  proof cases
    case 1
    let ?u = "(2::rat) powi (expo y - 52)"
    have u: "0 < ?u" by simp
    from assms(2) u have "x / ?u \<le> y / ?u" by (simp add: divide_right_mono)
    then have "round_half_even (x / ?u) \<le> round_half_even (y / ?u)" by (rule rhe_mono)
    then have "(of_int (round_half_even (x / ?u)) :: rat) \<le> of_int (round_half_even (y / ?u))"
      by (simp only: of_int_le_iff)
    then have "of_int (round_half_even (x / ?u)) * ?u \<le> of_int (round_half_even (y / ?u)) * ?u"
      using u by (simp only: mult_le_cancel_right_pos)
    then show ?thesis using fl_pos[OF assms(1)] fl_pos[OF y] 1 by simp
  next
    case 2
    then have "(2::rat) powi (expo x + 1) \<le> 2 powi (expo y)"
      by (intro power_int_increasing) simp_all
    with fl_pos_range(2)[OF assms(1)] fl_pos_range(1)[OF y] show ?thesis by linarith
  qed
qed

lemma fl_mono: "x \<le> y \<Longrightarrow> fl x \<le> fl y"
proof -
  assume le: "x \<le> y"
  consider "0 < x" | "x \<le> 0" "0 \<le> y" | "y < 0" by linarith
  then show ?thesis
  proof cases
    case 1
    then show ?thesis using le by (rule fl_mono_pos)
  next
    case 2
    from 2(1) have "0 \<le> fl (- x)" by (intro fl_nonneg) simp
    then have "fl x \<le> 0" by (simp add: fl_neg)
    moreover from 2(2) have "0 \<le> fl y" by (rule fl_nonneg)
    ultimately show ?thesis by linarith
  next
    case 3
    then have "0 < - y" "- y \<le> - x" using le by simp_all
    then have "fl (- y) \<le> fl (- x)" by (rule fl_mono_pos)
    then show ?thesis by (simp add: fl_neg)
  qed
qed

lemma fl_exact_pos:
  assumes "0 < m" "m < 2 ^ 53"
  shows "fl (of_int m * 2 powi e) = of_int m * 2 powi e"
proof -
  let ?x = "(of_int m :: rat) * 2 powi e"
  let ?b = "bitlen m"
  from bitlen_bounds[OF assms(1)] have b: "2 ^ nat (?b - 1) \<le> m" "m < 2 ^ nat ?b" by simp_all
  have b1: "1 \<le> ?b" using assms(1) by (simp add: bitlen_alt_def)
  have b53: "?b \<le> 53"
  proof (rule ccontr)
    assume "\<not> ?b \<le> 53"
    then have "53 \<le> nat (?b - 1)" by simp
    then have "(2::int) ^ 53 \<le> 2 ^ nat (?b - 1)" by (intro power_increasing) simp_all
    with b(1) assms(2) show False by linarith
  qed
  have x: "0 < ?x" using assms(1) by simp
  have p: "0 < (2::rat) powi e" by simp
  have lo: "2 powi (e + (?b - 1)) \<le> \<bar>?x\<bar>"
  proof -
    have "(2::rat) powi (e + (?b - 1)) = 2 powi (?b - 1) * 2 powi e"
      by (simp add: power_int_add mult.commute)
    also have "(2::rat) powi (?b - 1) = of_int (2 ^ nat (?b - 1))"
      using b1 by (simp add: power_int_nonneg_exp)
    also have "of_int (2 ^ nat (?b - 1)) * 2 powi e \<le> of_int m * (2::rat) powi e"
      using b(1) p by (simp only: mult_le_cancel_right_pos of_int_le_iff)
    finally show ?thesis using x by simp
  qed
  have hi: "\<bar>?x\<bar> < 2 powi (e + (?b - 1) + 1)"
  proof -
    have "(of_int m :: rat) * 2 powi e < of_int (2 ^ nat ?b) * 2 powi e"
      using b(2) p by (simp only: mult_less_cancel_right_pos of_int_less_iff)
    also have "(of_int (2 ^ nat ?b) :: rat) = 2 powi ?b"
      using b1 by (simp add: power_int_nonneg_exp)
    also have "(2::rat) powi ?b * 2 powi e = 2 powi (e + (?b - 1) + 1)"
      by (simp add: power_int_add[symmetric] add.commute)
    finally show ?thesis using x by simp
  qed
  have ex: "expo ?x = e + (?b - 1)" using lo hi by (rule expo_unique)
  let ?u = "(2::rat) powi (expo ?x - 52)"
  have "?x / ?u = of_int m * (2 powi e / 2 powi (e + (?b - 1) - 52))" by (simp add: ex)
  also have "(2::rat) powi e / 2 powi (e + (?b - 1) - 52) = 2 powi (e - (e + (?b - 1) - 52))"
    by (rule power_int_diff[symmetric]) simp
  also have "e - (e + (?b - 1) - 52) = 53 - ?b" by simp
  also have "(2::rat) powi (53 - ?b) = of_int (2 ^ nat (53 - ?b))"
    using b53 by (simp add: power_int_nonneg_exp)
  finally have q: "?x / ?u = of_int (m * 2 ^ nat (53 - ?b))" by simp
  have "fl ?x = of_int (round_half_even (?x / ?u)) * ?u" using x by (rule fl_pos)
  also have "\<dots> = of_int (m * 2 ^ nat (53 - ?b)) * ?u" by (simp only: q rhe_of_int)
  also have "\<dots> = (?x / ?u) * ?u" by (simp only: q)
  also have "\<dots> = ?x" by simp
  finally show ?thesis .
qed

lemma fl_of_nat: "n < 2 ^ 53 \<Longrightarrow> fl (of_nat n) = of_nat n"
proof (cases "n = 0")
  case True
  then show ?thesis by (simp add: fl_def)
next
  case False
  assume "n < 2 ^ 53"
  then have "int n < 2 ^ 53" by (metis of_nat_less_iff of_nat_numeral of_nat_power)
  moreover have "0 < int n" using False by simp
  ultimately have "fl (of_int (int n) * 2 powi 0) = of_int (int n) * 2 powi 0"
    using fl_exact_pos[of "int n" 0] by simp
  then show ?thesis by simp
qed

lemma fl_small_ints: "fl 1 = 1" "fl 2 = 2" "fl 100 = 100"
  using fl_of_nat[of 1] fl_of_nat[of 2] fl_of_nat[of 100] by simp_all

lemma score_bound:
  assumes "0 < t" "\<bar>d\<bar> \<le> t"
  shows "- 100 \<le> fl (fl (d / t) * 100)" "fl (fl (d / t) * 100) \<le> 100"
proof -
  from assms have "d / t \<le> 1" "- 1 \<le> d / t" by (simp_all add: field_simps abs_le_iff)
  then have "fl (d / t) \<le> fl 1" "fl (- 1) \<le> fl (d / t)" by (simp_all only: fl_mono)
  then have q: "fl (d / t) \<le> 1" "- 1 \<le> fl (d / t)" by (simp_all add: fl_neg fl_small_ints)
  then have "fl (d / t) * 100 \<le> 100" "- 100 \<le> fl (d / t) * 100" by simp_all
  then have "fl (fl (d / t) * 100) \<le> fl 100" "fl (- 100) \<le> fl (fl (d / t) * 100)"
    by (simp_all only: fl_mono)
  then show "- 100 \<le> fl (fl (d / t) * 100)" "fl (fl (d / t) * 100) \<le> 100"
    by (simp_all add: fl_neg fl_small_ints)
qed

subsection \<open>Sentiment\<close>

lemma fold_count_step:
  "fold count_step ws (p, n) =
     (p + length (filter (\<lambda>w. w \<in> set positiveWords) ws),
      n + length (filter (\<lambda>w. w \<in> set negativeWords) ws))"
  by (induction ws arbitrary: p n) (auto simp: count_step_def)

lemma blank_iff: "(text = [] \<or> length (trim text) = 0) = (\<forall>c \<in> set text. is_space c)"
  using trim_eq_Nil[of "text"] by (auto simp: trim_Nil)

text \<open>
  Claim C8. \<open>analyzeSentiment\<close> returns score 0 and label \<^verbatim>\<open>-\<close> for a text that is empty
  or white space only. Otherwise, with \<open>pos\<close> and \<open>neg\<close> the numbers of tokens in the
  positive and in the negative word list, it returns score 0 and label \<^verbatim>\<open>Neutral\<close> when
  \<open>pos + neg = 0\<close>, and else the score \<open>(pos - neg) / (pos + neg) * 100\<close> with the label
  \<^verbatim>\<open>Positive\<close> when the score is above 20, \<^verbatim>\<open>Negative\<close> when it is below -20, and
  \<^verbatim>\<open>Neutral\<close> otherwise.
\<close>

theorem analyzeSentiment_cases:
  "analyzeSentiment text =
     (if \<forall>c \<in> set text. is_space c then \<lparr>score = Num 0, label = ''-''\<rparr>
      else let pos = length (filter (\<lambda>w. w \<in> set positiveWords) (getWords text));
               neg = length (filter (\<lambda>w. w \<in> set negativeWords) (getWords text))
           in if pos + neg = 0 then \<lparr>score = Num 0, label = ''Neutral''\<rparr>
              else let s = js_mul (js_div (Num (of_int (int pos - int neg))) (Num (of_nat (pos + neg))))
                                  (Num 100)
                   in \<lparr>score = s,
                       label = (if js_gt s (Num 20) then ''Positive''
                                else if js_lt s (Num (- 20)) then ''Negative'' else ''Neutral'')\<rparr>)"
  unfolding analyzeSentiment_def blank_iff fold_count_step
  by (simp add: Let_def number_of_nat_def)

text \<open>A witness for C8: one text for each of the five outcomes.\<close>

theorem analyzeSentiment_cases_witness:
  "analyzeSentiment ''  '' = \<lparr>score = Num 0, label = ''-''\<rparr> \<and>
   analyzeSentiment ''no such word'' = \<lparr>score = Num 0, label = ''Neutral''\<rparr> \<and>
   analyzeSentiment ''Good, good; BAD!'' = \<lparr>score = Num (fl (fl (1 / 3) * 100)), label = ''Positive''\<rparr> \<and>
   analyzeSentiment ''good bad bad bad'' = \<lparr>score = Num (- 50), label = ''Negative''\<rparr> \<and>
   analyzeSentiment ''good good good bad bad'' = \<lparr>score = Num 20, label = ''Neutral''\<rparr>"
proof -
  have "analyzeSentiment ''  '' = \<lparr>score = Num 0, label = ''-''\<rparr>"
    by (subst analyzeSentiment_cases) (simp add: is_space_def)
  moreover have "analyzeSentiment ''no such word'' = \<lparr>score = Num 0, label = ''Neutral''\<rparr>"
    by (subst analyzeSentiment_cases) code_simp
  moreover have "analyzeSentiment ''Good, good; BAD!''
      = \<lparr>score = Num (fl (fl (1 / 3) * 100)), label = ''Positive''\<rparr>"
    by (subst analyzeSentiment_cases) code_simp
  moreover have "analyzeSentiment ''good bad bad bad'' = \<lparr>score = Num (- 50), label = ''Negative''\<rparr>"
    by (subst analyzeSentiment_cases) code_simp
  moreover have "analyzeSentiment ''good good good bad bad'' = \<lparr>score = Num 20, label = ''Neutral''\<rparr>"
    by (subst analyzeSentiment_cases) code_simp
  ultimately show ?thesis by blast
qed

text \<open>
  Claim C10. The score that \<open>analyzeSentiment\<close> returns is a finite number between -100
  and 100, for every text.
\<close>

theorem sentiment_score_range:
  "\<exists>r. score (analyzeSentiment text) = Num r \<and> - 100 \<le> r \<and> r \<le> 100"
proof -
  obtain p n where pn: "fold count_step (getWords text) (0, 0) = (p, n)"
    by (cases "fold count_step (getWords text) (0, 0)") auto
  show ?thesis
  proof (cases "(text = [] \<or> length (trim text) = 0) \<or> p + n = 0")
    case True
    then have "score (analyzeSentiment text) = Num 0"
      by (auto simp: analyzeSentiment_def pn number_of_nat_def)
    then show ?thesis by simp
  next
    case False
    let ?d = "rat_of_int (int p - int n)"
    let ?t = "rat_of_nat (p + n)"
    let ?r = "fl (fl (?d / ?t) * 100)"
    from False have pn0: "0 < p + n" by simp
    then have t: "0 < ?t" by (simp only: of_nat_0_less_iff)
    have d: "\<bar>?d\<bar> \<le> ?t"
    proof -
      have "\<bar>int p - int n\<bar> \<le> int (p + n)" by simp
      then have "rat_of_int \<bar>int p - int n\<bar> \<le> rat_of_int (int (p + n))"
        by (simp only: of_int_le_iff)
      then show ?thesis by simp
    qed
    from t have tn: "?t \<noteq> 0" by simp
    have "score (analyzeSentiment text) = Num ?r"
      using False tn by (auto simp: analyzeSentiment_def pn number_of_nat_def Let_def)
    with score_bound[OF t d] show ?thesis by blast
  qed
qed

text \<open>A witness for C10: a text with two negative words and one positive word.\<close>

theorem sentiment_score_range_witness:
  "score (analyzeSentiment ''bad bad good?'') = Num (fl (fl (- 1 / 3) * 100)) \<and>
   (\<exists>r. score (analyzeSentiment ''bad bad good?'') = Num r \<and> - 100 \<le> r \<and> r \<le> 100)"
proof -
  have "score (analyzeSentiment ''bad bad good?'') = Num (fl (fl (- 1 / 3) * 100))" by code_simp
  with sentiment_score_range[of "''bad bad good?''"] show ?thesis by blast
qed

subsection \<open>Time estimates\<close>

lemma fl_below:
  assumes "w < c * d" "0 < d" "fl (of_nat (c * d - 1) / of_nat d) < of_nat c"
  shows "fl (of_nat w / of_nat d) < of_nat c"
proof -
  from assms(1) have "w \<le> c * d - 1" by simp
  then have "(of_nat w :: rat) \<le> of_nat (c * d - 1)" by (simp only: of_nat_le_iff)
  then have "(of_nat w :: rat) / of_nat d \<le> of_nat (c * d - 1) / of_nat d"
    using assms(2) by (simp add: divide_right_mono)
  then have "fl (of_nat w / of_nat d) \<le> fl (of_nat (c * d - 1) / of_nat d)" by (rule fl_mono)
  with assms(3) show ?thesis by linarith
qed

lemma fl_not_below:
  assumes "c * d \<le> w" "0 < d" "c < 2 ^ 53"
  shows "of_nat c \<le> fl (of_nat w / of_nat d)"
proof -
  from assms(1) have "(of_nat (c * d) :: rat) \<le> of_nat w" by (simp only: of_nat_le_iff)
  then have "(of_nat c :: rat) \<le> of_nat w / of_nat d"
    using assms(2) by (simp add: pos_le_divide_eq)
  then have "fl (of_nat c) \<le> fl (of_nat w / of_nat d)" by (rule fl_mono)
  then show ?thesis using fl_of_nat[OF assms(3)] by simp
qed

lemma ceiling_fl_quotient:
  assumes "w < 2 ^ 32" "0 < d" "d \<le> 512"
  shows "\<lceil>fl (of_nat w / of_nat d)\<rceil> = \<lceil>(of_nat w :: rat) / of_nat d\<rceil>"
proof (cases "w = 0")
  case True
  then show ?thesis by (simp add: fl_def)
next
  case False
  define q :: rat where "q = of_nat w / of_nat d"
  define k where "k = \<lceil>q\<rceil>"
  have dpos: "(0::rat) < of_nat d" using assms(2) by simp
  have qpos: "0 < q" unfolding q_def using False dpos by simp
  then have k1: "1 \<le> k" unfolding k_def by (simp add: less_ceiling_iff)
  have qk: "q \<le> of_int k" "of_int k - 1 < q"
    unfolding k_def using ceiling_correct[of q] by simp_all
  have "q \<le> of_nat w" unfolding q_def using assms(2)
    by (simp add: pos_divide_le_eq mult_le_cancel_left1)
  then have "k \<le> int w" unfolding k_def by (simp add: ceiling_le_iff)
  moreover have "int w < 2 ^ 32" using assms(1) by (metis of_nat_less_iff of_nat_numeral of_nat_power)
  ultimately have kb: "k < 2 ^ 32" by simp
  have up: "fl q \<le> of_int k"
  proof -
    have "fl q \<le> fl (of_int k)" using qk(1) by (rule fl_mono)
    moreover have "fl (of_int k * 2 powi 0) = of_int k * 2 powi 0"
      using k1 kb by (intro fl_exact_pos) simp_all
    ultimately show ?thesis by simp
  qed
  have lo: "of_int k - 1 < fl q"
  proof -
    have "of_int (k - 1) * of_nat d < (of_nat w :: rat)"
      using qk(2) dpos unfolding q_def by (simp add: pos_less_divide_eq)
    then have "rat_of_int ((k - 1) * int d) < rat_of_int (int w)" by simp
    then have "(k - 1) * int d < int w" by (simp only: of_int_less_iff)
    then have "(k - 1) * int d + 1 \<le> int w" by simp
    then have "rat_of_int ((k - 1) * int d + 1) \<le> rat_of_int (int w)" by (simp only: of_int_le_iff)
    then have "of_int (k - 1) * of_nat d + 1 \<le> (of_nat w :: rat)" by simp
    then have "(of_int (k - 1) * of_nat d + 1) / of_nat d \<le> (of_nat w :: rat) / of_nat d"
      using dpos by (intro divide_right_mono) simp_all
    moreover have "(of_int (k - 1) * of_nat d + 1) / (of_nat d :: rat) = of_int (k - 1) + 1 / of_nat d"
      using dpos by (simp add: add_divide_distrib)
    ultimately have "of_int (k - 1) + 1 / of_nat d \<le> q"
      unfolding q_def by (simp only:)
    moreover have "(1::rat) / 512 \<le> 1 / of_nat d"
    proof -
      have "(of_nat d :: rat) \<le> of_nat 512" using assms(3) by (simp only: of_nat_le_iff)
      then show ?thesis using dpos by (simp add: field_simps)
    qed
    ultimately have "of_int (k - 1) + 1 / 512 \<le> q" by linarith
    moreover have "of_int ((k - 1) * 512 + 1) * (2::rat) powi (- 9) = of_int (k - 1) + 1 / 512"
      by (simp add: power_int_minus field_simps)
    ultimately have "of_int ((k - 1) * 512 + 1) * (2::rat) powi (- 9) \<le> q" by simp
    then have "fl (of_int ((k - 1) * 512 + 1) * 2 powi (- 9)) \<le> fl q" by (rule fl_mono)
    moreover have "fl (of_int ((k - 1) * 512 + 1) * 2 powi (- 9)) = of_int ((k - 1) * 512 + 1) * 2 powi (- 9)"
      using k1 kb by (intro fl_exact_pos) simp_all
    ultimately have "of_int ((k - 1) * 512 + 1) * (2::rat) powi (- 9) \<le> fl q" by simp
    then have "of_int (k - 1) + 1 / 512 \<le> fl q"
      using \<open>of_int ((k - 1) * 512 + 1) * (2::rat) powi (- 9) = of_int (k - 1) + 1 / 512\<close> by simp
    then show ?thesis by simp
  qed
  have "\<lceil>fl q\<rceil> = k" using up lo by (intro ceiling_unique) simp_all
  then show ?thesis unfolding k_def q_def .
qed


lemma estimateTime_exact_eq:
  assumes "w < 2 ^ 32" "0 < d" "d \<le> 512"
    and "fl (of_nat (1 * d - 1) / of_nat d) < of_nat 1"
    and "fl (of_nat (2 * d - 1) / of_nat d) < of_nat 2"
  shows "estimateTime w d = estimateTime_exact w d"
proof -
  define f where "f = fl (of_nat w / of_nat d)"
  define q :: rat where "q = of_nat w / of_nat d"
  have dpos: "(0::rat) < of_nat d" using assms(2) by simp
  have m: "js_div (number_of_nat w) (number_of_nat d) = Num f"
    using assms(2) by (simp add: number_of_nat_def f_def)
  have q1: "q < 1 \<longleftrightarrow> w < 1 * d"
    unfolding q_def using dpos by (simp add: pos_divide_less_eq)
  have q2: "q < 2 \<longleftrightarrow> w < 2 * d"
  proof -
    have "q < 2 \<longleftrightarrow> (of_nat w :: rat) < of_nat (2 * d)"
      unfolding q_def using dpos by (simp add: pos_divide_less_eq)
    then show ?thesis by (simp only: of_nat_less_iff)
  qed
  have f1: "f < 1 \<longleftrightarrow> w < 1 * d"
  proof
    assume "f < 1"
    show "w < 1 * d"
    proof (rule ccontr)
      assume "\<not> w < 1 * d"
      then have "1 * d \<le> w" by simp
      from fl_not_below[OF this assms(2)] have "of_nat 1 \<le> f" unfolding f_def by simp
      with \<open>f < 1\<close> show False by simp
    qed
  next
    assume "w < 1 * d"
    from fl_below[OF this assms(2) assms(4)] show "f < 1" unfolding f_def by simp
  qed
  have f2: "f < 2 \<longleftrightarrow> w < 2 * d"
  proof
    assume "f < 2"
    show "w < 2 * d"
    proof (rule ccontr)
      assume "\<not> w < 2 * d"
      then have "2 * d \<le> w" by simp
      from fl_not_below[OF this assms(2)] have "of_nat 2 \<le> f" unfolding f_def by simp
      with \<open>f < 2\<close> show False by simp
    qed
  next
    assume "w < 2 * d"
    from fl_below[OF this assms(2) assms(5)] show "f < 2" unfolding f_def by simp
  qed
  have c: "\<lceil>f\<rceil> = \<lceil>q\<rceil>"
    unfolding f_def q_def using assms(1-3) by (rule ceiling_fl_quotient)
  have s: "\<not> f < 2 \<Longrightarrow> number_to_string (math_ceil (Num f)) = nat_to_string (nat \<lceil>q\<rceil>)"
  proof -
    assume "\<not> f < 2"
    then have "0 \<le> \<lceil>f\<rceil>" by (simp add: le_ceiling_iff)
    then have "\<not> rat_of_int \<lceil>f\<rceil> < 0" by simp
    then show ?thesis by (simp add: c)
  qed
  show ?thesis
    unfolding estimateTime_def estimateTime_exact_def m q_def[symmetric]
    using f1 f2 q1 q2 s by (auto simp: Let_def)
qed

lemma fl_values:
  "fl (3 / 4) = 3 / 4" "fl (5 / 4) = 5 / 4" "fl (5 / 2) = 5 / 2"
  "fl (199 / 200) < 1" "fl (399 / 200) < 2" "fl (149 / 150) < 1" "fl (299 / 150) < 2"
  "fl (399 / 400) < 1" "fl (799 / 400) < 2"
  by code_simp+

lemma small_values:
  "\<lceil>(5::rat) / 2\<rceil> = 3" "\<lceil>(10::rat) / 3\<rceil> = 4" "nat_to_string 2 = ''2''"
  "nat_to_string 3 = ''3''" "nat_to_string 4 = ''4''"
  by code_simp+

text \<open>
  Claim C6. The reading, speaking and skimming times are the estimate at 200, 150 and 400
  words per minute: \<^verbatim>\<open>< 1 min\<close> when \<open>minutes < 1\<close>, \<^verbatim>\<open>1 min\<close> when
  \<open>1 \<le> minutes < 2\<close>, and the ceiling of the minutes followed by \<^verbatim>\<open> min\<close> otherwise,
  where \<open>minutes\<close> is the word count divided by the words per minute. For a word count
  below \<open>2 ^ 32\<close>, which every Array length is, the rounding of the division changes
  nothing: the result is the one of the exact quotient. At 200 words per minute, 150 words
  give \<^verbatim>\<open>< 1 min\<close>, 250 give \<^verbatim>\<open>1 min\<close> and 500 give \<^verbatim>\<open>3 min\<close>.
\<close>

theorem time_estimates:
  "calculateReadingTime wordCount = estimateTime wordCount 200 \<and>
   calculateSpeakingTime wordCount = estimateTime wordCount 150 \<and>
   calculateSkimmingTime wordCount = estimateTime wordCount 400 \<and>
   (wordCount < 2 ^ 32 \<longrightarrow>
      calculateReadingTime wordCount = estimateTime_exact wordCount 200 \<and>
      calculateSpeakingTime wordCount = estimateTime_exact wordCount 150 \<and>
      calculateSkimmingTime wordCount = estimateTime_exact wordCount 400) \<and>
   calculateReadingTime 150 = ''< 1 min'' \<and>
   calculateReadingTime 250 = ''1 min'' \<and>
   calculateReadingTime 500 = ''3 min''"
proof -
  have r: "calculateReadingTime wordCount = estimateTime wordCount 200"
    by (simp add: calculateReadingTime_def estimateTime_def number_of_nat_def Let_def)
  have s: "calculateSpeakingTime wordCount = estimateTime wordCount 150"
    by (simp add: calculateSpeakingTime_def estimateTime_def number_of_nat_def Let_def)
  have k: "calculateSkimmingTime wordCount = estimateTime wordCount 400"
    by (simp add: calculateSkimmingTime_def estimateTime_def number_of_nat_def Let_def)
  have a200: "fl (of_nat (1 * 200 - 1) / of_nat 200) < of_nat 1" by (simp add: fl_values)
  have b200: "fl (of_nat (2 * 200 - 1) / of_nat 200) < of_nat 2" by (simp add: fl_values)
  have a150: "fl (of_nat (1 * 150 - 1) / of_nat 150) < of_nat 1" by (simp add: fl_values)
  have b150: "fl (of_nat (2 * 150 - 1) / of_nat 150) < of_nat 2" by (simp add: fl_values)
  have a400: "fl (of_nat (1 * 400 - 1) / of_nat 400) < of_nat 1" by (simp add: fl_values)
  have b400: "fl (of_nat (2 * 400 - 1) / of_nat 400) < of_nat 2" by (simp add: fl_values)
  have e: "estimateTime wordCount 200 = estimateTime_exact wordCount 200
      \<and> estimateTime wordCount 150 = estimateTime_exact wordCount 150
      \<and> estimateTime wordCount 400 = estimateTime_exact wordCount 400"
    if "wordCount < 2 ^ 32"
    using estimateTime_exact_eq[OF that _ _ a200 b200] estimateTime_exact_eq[OF that _ _ a150 b150]
      estimateTime_exact_eq[OF that _ _ a400 b400] by simp
  have x1: "calculateReadingTime 150 = ''< 1 min''"
    by (simp add: calculateReadingTime_def number_of_nat_def Let_def fl_values)
  have x2: "calculateReadingTime 250 = ''1 min''"
    by (simp add: calculateReadingTime_def number_of_nat_def Let_def fl_values)
  have x3: "calculateReadingTime 500 = ''3 min''"
    by (simp add: calculateReadingTime_def number_of_nat_def Let_def fl_values small_values)
  from r s k e x1 x2 x3 show ?thesis by simp
qed

text \<open>A witness for C6, on word counts in each of the three branches.\<close>

theorem time_estimates_witness:
  "(500 :: nat) < 2 ^ 32 \<and> calculateReadingTime 500 = ''3 min'' \<and>
   calculateSpeakingTime 500 = ''4 min'' \<and> calculateSkimmingTime 500 = ''1 min'' \<and>
   calculateSkimmingTime 800 = ''2 min'' \<and> calculateSpeakingTime 149 = ''< 1 min''"
proof -
  have b: "(500 :: nat) < 2 ^ 32" "(800 :: nat) < 2 ^ 32" "(149 :: nat) < 2 ^ 32" by simp_all
  from time_estimates[of 500] b(1)
  have c500: "calculateReadingTime 500 = estimateTime_exact 500 200"
    "calculateSpeakingTime 500 = estimateTime_exact 500 150"
    "calculateSkimmingTime 500 = estimateTime_exact 500 400" by blast+
  from time_estimates[of 800] b(2)
  have c800: "calculateSkimmingTime 800 = estimateTime_exact 800 400" by blast
  from time_estimates[of 149] b(3)
  have c149: "calculateSpeakingTime 149 = estimateTime_exact 149 150" by blast
  have "estimateTime_exact 500 200 = ''3 min''"
    by (simp add: estimateTime_exact_def Let_def small_values)
  moreover have "estimateTime_exact 500 150 = ''4 min''"
    by (simp add: estimateTime_exact_def Let_def small_values)
  moreover have "estimateTime_exact 500 400 = ''1 min''"
    by (simp add: estimateTime_exact_def Let_def)
  moreover have "estimateTime_exact 800 400 = ''2 min''"
    by (simp add: estimateTime_exact_def Let_def small_values)
  moreover have "estimateTime_exact 149 150 = ''< 1 min''"
    by (simp add: estimateTime_exact_def Let_def)
  ultimately show ?thesis using b(1) c500 c800 c149 by simp
qed

subsection \<open>Flesch reading ease\<close>

lemma floor_halves: "\<lfloor>(1::rat) / 2\<rfloor> = 0" "\<lfloor>(100::rat) + 1 / 2\<rfloor> = 100" "\<lfloor>(201::rat) / 2\<rfloor> = 100"
  by (rule floor_unique; simp)+

lemma round_clamp:
  "math_max (Num 0) (math_min (Num 100) (math_round (Num q))) = math_round (clamp_0_100 (Num q))"
proof -
  define r where "r = \<lfloor>q + 1 / 2\<rfloor>"
  have r: "of_int r \<le> q + 1 / 2" "q + 1 / 2 < of_int r + 1"
    unfolding r_def using floor_correct[of "q + 1 / 2"] by simp_all
  consider "q \<le> 0" | "0 < q" "q < 100" | "100 \<le> q" by linarith
  then show ?thesis
  proof cases
    case 1
    with r(1) have "rat_of_int r < 1" by linarith
    then have "r \<le> 0" by simp
    then have "\<not> 0 < rat_of_int r" "rat_of_int r < 100" by simp_all
    then show ?thesis using 1 by (simp add: clamp_0_100_def r_def[symmetric] floor_halves)
  next
    case 2
    from 2(1) r(2) have "0 < rat_of_int r + 1" by linarith
    then have r0: "0 \<le> r" by simp
    from 2(2) r(1) have "rat_of_int r < 101" by linarith
    then have r100: "r \<le> 100" by simp
    show ?thesis
    proof (cases "r = 100")
      case True
      then show ?thesis using 2 by (simp add: clamp_0_100_def r_def[symmetric] floor_halves)
    next
      case False
      with r100 have "r < 100" by simp
      then have a: "rat_of_int r < 100" by simp
      show ?thesis
      proof (cases "r = 0")
        case True
        then show ?thesis using 2 by (simp add: clamp_0_100_def r_def[symmetric] floor_halves)
      next
        case False
        with r0 have "0 < r" by simp
        then have "0 < rat_of_int r" by simp
        then show ?thesis using 2 a by (simp add: clamp_0_100_def r_def[symmetric] floor_halves)
      qed
    qed
  next
    case 3
    with r(2) have "rat_of_int 99 < rat_of_int r" by simp
    then have "99 < r" by (simp only: of_int_less_iff)
    then have "100 \<le> r" by simp
    then have b: "\<not> rat_of_int r < 100" by simp
    show ?thesis using 3 b by (simp add: clamp_0_100_def r_def[symmetric] floor_halves)
  qed
qed

lemma round_clamp_range:
  "\<exists>r. math_round (clamp_0_100 (Num q)) = Num (of_int r) \<and> 0 \<le> r \<and> r \<le> 100"
proof -
  have "clamp_0_100 (Num q) = Num (max 0 (min 100 q))"
    by (auto simp: clamp_0_100_def)
  then have m: "math_round (clamp_0_100 (Num q)) = Num (of_int \<lfloor>max 0 (min 100 q) + 1 / 2\<rfloor>)"
    by simp
  have "0 \<le> max 0 (min 100 q) + 1 / 2" "max 0 (min 100 q) + 1 / 2 < 101" by simp_all
  then have "0 \<le> \<lfloor>max 0 (min 100 q) + 1 / 2\<rfloor>" "\<lfloor>max 0 (min 100 q) + 1 / 2\<rfloor> < 101"
    by (simp_all add: floor_less_iff)
  with m show ?thesis by force
qed

lemma flesch_score_finite:
  "countSentences text \<noteq> 0 \<Longrightarrow> countWords text \<noteq> 0 \<Longrightarrow> \<exists>q. flesch_score text = Num q"
  by (simp add: flesch_score_def number_of_nat_def literal_def)

text \<open>
  Claim C5. \<open>calculateFleschReadingEase\<close> returns \<^verbatim>\<open>null\<close> exactly when the sentence
  count or the word count is 0. Otherwise it returns the Flesch score
  \<open>206.835 - 1.015 * (words / sentences) - 84.6 * (syllables / words)\<close> clamped to the
  interval from 0 to 100 and rounded to the nearest integer (the code rounds first and clamps
  then, which gives the same number), so that the result is an integer from 0 to 100.
\<close>

theorem flesch_reading_ease:
  "(calculateFleschReadingEase text = None \<longleftrightarrow> countSentences text = 0 \<or> countWords text = 0) \<and>
   (countSentences text \<noteq> 0 \<and> countWords text \<noteq> 0 \<longrightarrow>
      calculateFleschReadingEase text = Some (math_round (clamp_0_100 (flesch_score text))) \<and>
      (\<exists>r. calculateFleschReadingEase text = Some (Num (of_int r)) \<and> 0 \<le> r \<and> r \<le> 100))"
proof -
  have a: "calculateFleschReadingEase text = None \<longleftrightarrow> countSentences text = 0 \<or> countWords text = 0"
    by (simp add: calculateFleschReadingEase_def Let_def)
  have b: "calculateFleschReadingEase text = Some (math_round (clamp_0_100 (flesch_score text)))
      \<and> (\<exists>r. calculateFleschReadingEase text = Some (Num (of_int r)) \<and> 0 \<le> r \<and> r \<le> 100)"
    if h: "countSentences text \<noteq> 0" "countWords text \<noteq> 0"
  proof -
    from flesch_score_finite[OF h] obtain q where q: "flesch_score text = Num q" by blast
    have "calculateFleschReadingEase text
        = Some (math_max (number_of_nat 0) (math_min (number_of_nat 100) (math_round (flesch_score text))))"
      using h by (simp add: calculateFleschReadingEase_def Let_def flesch_score_def)
    also have "\<dots> = Some (math_max (Num 0) (math_min (Num 100) (math_round (Num q))))"
      by (simp add: number_of_nat_def q)
    also have "\<dots> = Some (math_round (clamp_0_100 (Num q)))" by (simp only: round_clamp)
    finally have e: "calculateFleschReadingEase text = Some (math_round (clamp_0_100 (flesch_score text)))"
      by (simp only: q)
    from round_clamp_range[of q] obtain r
      where "math_round (clamp_0_100 (Num q)) = Num (of_int r)" "0 \<le> r" "r \<le> 100" by blast
    with e q show ?thesis by auto
  qed
  from a b show ?thesis by blast
qed


text \<open>
  A witness for C5: a sentence with score 91, and a text of one word and no sentence, for
  which the result is \<^verbatim>\<open>null\<close>.
\<close>

theorem flesch_reading_ease_witness:
  "calculateFleschReadingEase ''Reading is fun.'' = Some (Num 91) \<and>
   calculateFleschReadingEase ''!!!'' = None \<and> countWords ''!!!'' = 1"
proof -
  have a: "countSentences ''Reading is fun.'' \<noteq> 0" "countWords ''Reading is fun.'' \<noteq> 0"
    by code_simp+
  have av: "math_round (clamp_0_100 (flesch_score ''Reading is fun.'')) = Num 91"
    by code_simp
  have c: "countSentences ''!!!'' = 0" "countWords ''!!!'' = 1" by code_simp+
  from flesch_reading_ease[of "''Reading is fun.''"] a av
  have "calculateFleschReadingEase ''Reading is fun.'' = Some (Num 91)" by simp
  moreover from flesch_reading_ease[of "''!!!''"] c(1)
  have "calculateFleschReadingEase ''!!!'' = None" by simp
  ultimately show ?thesis using c(2) by simp
qed

end
